theory Spec2Isabelle
  imports Main
begin

section \<open>The users import task of the scheduler\<close>

text \<open>
  A shallow embedding of \<^verbatim>\<open>ImportUsersTask.processTenant\<close>
  (src/scheduler/tasks/ImportUsersTask.ts). The task takes the tenant's import lock,
  drains the imported users whose status is READY page by page, merges each of them into
  the users of the tenant, reports the two counters and releases the lock.

  The storage, locking and logging classes the task calls are not among the sources; each
  of them is modelled from the specification, at the interface of its section 6, on an
  explicit state. Every awaited call may reject: the state carries a schedule of injected
  faults, and each external call consumes its next entry.
\<close>

subsection \<open>Data model\<close>

type_synonym tenantID = string

text \<open>
  Modelled from the spec: the type declarations the task imports (\<^verbatim>\<open>types/User\<close>,
  \<^verbatim>\<open>types/GlobalType\<close>) are not among the sources. The records below hold the
  fields the task reads and writes; identifiers are natural numbers, dates too.

  \<^verbatim>\<open>ImportStatus\<close>: the status of a candidate record, READY or ERROR.
\<close>

datatype ImportStatus = READY | ERROR

text \<open>
  \<^verbatim>\<open>UserStatus\<close> and \<^verbatim>\<open>UserRole\<close>: the task names PENDING, ACTIVE and
  BASIC; any further value of the enumerations is kept by its name.
\<close>

datatype UserStatus = PENDING | ACTIVE | OtherStatus string

datatype UserRole = BASIC | OtherRole string

text \<open>A JavaScript \<^verbatim>\<open>Error\<close>, by its message.\<close>

datatype error = Error (message: string)

record ImportedUser =
  imp_id :: nat
  imp_email :: string
  imp_name :: string
  imp_firstName :: string
  imp_status :: ImportStatus
  imp_errorDescription :: "string option"
  importedBy :: string
  importedOn :: nat

text \<open>
  \<^verbatim>\<open>Partial<User>\<close>: the identifier is absent until the user is saved; role and
  status are sub-attributes, written separately, and absent until they are.
\<close>

record User =
  user_id :: "nat option"
  firstName :: string
  name :: string
  email :: string
  user_locale :: "string option"
  issuer :: bool
  deleted :: bool
  role :: "UserRole option"
  status :: "UserStatus option"
  createdBy :: "string option"
  createdOn :: "nat option"
  notificationsActive :: bool

text \<open>\<^verbatim>\<open>ActionsResponse\<close>: the two counters of a pass.\<close>

record ActionsResponse =
  inError :: nat
  inSuccess :: nat

text \<open>A lock is keyed by the tenant and the purpose of the lock.\<close>

type_synonym Lock = "tenantID \<times> string"

text \<open>What the logging calls of the task leave behind (the durations are not kept).\<close>

datatype LogEntry =
    LogInfo tenantID nat
  | LogError tenantID ImportedUser string
  | LogDebug tenantID nat nat
  | LogActionsResponse tenantID ActionsResponse
  | LogActionException tenantID error

text \<open>
  The state the task runs on: the staging store and the canonical store of every tenant,
  the locks held, the log, and the faults still to be injected (\<open>Some m\<close>: the next
  external call rejects with message \<open>m\<close>; \<open>None\<close>: it completes).
\<close>

record sys =
  importedUsers :: "tenantID \<Rightarrow> ImportedUser list"
  users :: "tenantID \<Rightarrow> User list"
  locks :: "Lock list"
  logs :: "LogEntry list"
  faults :: "string option list"

subsection \<open>Fault injection\<close>

text \<open>
  The next scheduled fault, and the state once the call that meets it is made. A call that
  rejects changes nothing but the schedule.
\<close>

definition nextFault :: "sys \<Rightarrow> string option" where
  "nextFault s = (case faults s of [] \<Rightarrow> None | f # _ \<Rightarrow> f)"

definition called :: "sys \<Rightarrow> sys" where
  "called s = s\<lparr>faults := tl (faults s)\<rparr>"

text \<open>None of the next \<open>k\<close> external calls rejects.\<close>

definition noFault :: "nat \<Rightarrow> sys \<Rightarrow> bool" where
  "noFault k s = list_all (\<lambda>f. f = None) (take k (faults s))"

subsection \<open>Lock coordinator\<close>

text \<open>
  Modelled from the spec: \<^verbatim>\<open>LockingHelper.createImportUsersLock\<close> (the
  \<open>acquire(tenantID, "import")\<close> of section 4.1) is not among the sources. It returns
  no lock, and no error, when the lock is held; else it records the lock as held.
\<close>

definition createImportUsersLock :: "tenantID \<Rightarrow> sys \<Rightarrow> Lock option \<times> sys" where
  "createImportUsersLock t s =
     (if (t, ''import'') \<in> set (locks s) then (None, s)
      else (Some (t, ''import''), s\<lparr>locks := (t, ''import'') # locks s\<rparr>))"

text \<open>
  Modelled from the spec: \<^verbatim>\<open>LockingManager.release\<close> is not among the sources. It
  releases the lock, idempotently, and always succeeds.
\<close>

definition release :: "Lock \<Rightarrow> sys \<Rightarrow> sys" where
  "release l s = s\<lparr>locks := removeAll l (locks s)\<rparr>"

subsection \<open>Staging store\<close>

text \<open>
  Modelled from the spec: \<^verbatim>\<open>UserStorage.getImportedUsersCount\<close> is not among the
  sources (\<open>count(tenantID, filter)\<close>: the number of READY candidates).
\<close>

definition getImportedUsersCount :: "tenantID \<Rightarrow> sys \<Rightarrow> (error + nat) \<times> sys" where
  "getImportedUsersCount t s =
     (case nextFault s of
        Some m \<Rightarrow> (Inl (Error m), called s)
      | None \<Rightarrow>
          (Inr (length (filter (\<lambda>c. imp_status c = READY) (importedUsers s t))), called s))"

text \<open>
  Modelled from the spec: \<^verbatim>\<open>UserStorage.getImportedUsers\<close> is not among the sources
  (\<open>page(tenantID, filter, limit, offset)\<close>: the candidates with the status asked for,
  in insertion order, \<open>limit\<close> of them after the first \<open>skip\<close>).
\<close>

definition getImportedUsers ::
  "tenantID \<Rightarrow> ImportStatus \<Rightarrow> nat \<Rightarrow> nat \<Rightarrow> sys \<Rightarrow> (error + ImportedUser list) \<times> sys" where
  "getImportedUsers t st limit skip s =
     (case nextFault s of
        Some m \<Rightarrow> (Inl (Error m), called s)
      | None \<Rightarrow>
          (Inr (take limit (drop skip (filter (\<lambda>c. imp_status c = st) (importedUsers s t)))),
           called s))"

text \<open>
  Modelled from the spec: \<^verbatim>\<open>UserStorage.saveImportedUser\<close> is not among the sources
  (\<open>upsertWithError(tenantID, record)\<close>: the record replaces the stored one of its
  identifier, or is added when there is none).
\<close>

definition upsertImportedUser :: "ImportedUser \<Rightarrow> ImportedUser list \<Rightarrow> ImportedUser list" where
  "upsertImportedUser c cs =
     (if list_ex (\<lambda>x. imp_id x = imp_id c) cs
      then map (\<lambda>x. if imp_id x = imp_id c then c else x) cs
      else cs @ [c])"

definition saveImportedUser :: "tenantID \<Rightarrow> ImportedUser \<Rightarrow> sys \<Rightarrow> (error + unit) \<times> sys" where
  "saveImportedUser t c s =
     (case nextFault s of
        Some m \<Rightarrow> (Inl (Error m), called s)
      | None \<Rightarrow>
          (Inr (),
           called (s\<lparr>importedUsers := (importedUsers s)(t := upsertImportedUser c (importedUsers s t))\<rparr>)))"

text \<open>
  Modelled from the spec: \<^verbatim>\<open>UserStorage.deleteImportedUser\<close> is not among the
  sources (\<open>delete(tenantID, recordID)\<close>).
\<close>

definition deleteImportedUser :: "tenantID \<Rightarrow> nat \<Rightarrow> sys \<Rightarrow> (error + unit) \<times> sys" where
  "deleteImportedUser t i s =
     (case nextFault s of
        Some m \<Rightarrow> (Inl (Error m), called s)
      | None \<Rightarrow>
          (Inr (),
           called (s\<lparr>importedUsers :=
             (importedUsers s)(t := filter (\<lambda>x. imp_id x \<noteq> i) (importedUsers s t))\<rparr>)))"

subsection \<open>Canonical store\<close>

text \<open>
  Modelled from the spec: \<^verbatim>\<open>UserStorage.getUserByEmail\<close> is not among the sources
  (\<open>findByKey(tenantID, key)\<close>).
\<close>

definition getUserByEmail :: "tenantID \<Rightarrow> string \<Rightarrow> sys \<Rightarrow> (error + User option) \<times> sys" where
  "getUserByEmail t e s =
     (case nextFault s of
        Some m \<Rightarrow> (Inl (Error m), called s)
      | None \<Rightarrow> (Inr (find (\<lambda>u. email u = e) (users s t)), called s))"

text \<open>An identifier no stored user has.\<close>

definition freshUserID :: "User list \<Rightarrow> nat" where
  "freshUserID us = Suc (foldr (\<lambda>u m. case user_id u of None \<Rightarrow> m | Some i \<Rightarrow> max i m) us 0)"

text \<open>
  Modelled from the spec: \<^verbatim>\<open>UserStorage.saveUser\<close> is not among the sources
  (\<open>create(tenantID, entity) -> id\<close> and \<open>update(tenantID, entity)\<close>). A user without
  identifier is created under a fresh one; a user with an identifier replaces the stored
  one. Role and status are sub-attributes written separately: a created user has none, an
  updated one keeps those it has in the store.
\<close>

definition saveUser :: "tenantID \<Rightarrow> User \<Rightarrow> sys \<Rightarrow> (error + nat) \<times> sys" where
  "saveUser t u s =
     (case nextFault s of
        Some m \<Rightarrow> (Inl (Error m), called s)
      | None \<Rightarrow>
          (case user_id u of
             None \<Rightarrow>
               (let i = freshUserID (users s t) in
                (Inr i,
                 called (s\<lparr>users := (users s)(t := users s t @
                   [u\<lparr>user_id := Some i, role := None, status := None\<rparr>])\<rparr>)))
           | Some i \<Rightarrow>
               (Inr i,
                called (s\<lparr>users := (users s)(t :=
                  (if list_ex (\<lambda>x. user_id x = Some i) (users s t)
                   then map (\<lambda>x. if user_id x = Some i
                                  then u\<lparr>role := role x, status := status x\<rparr> else x) (users s t)
                   else users s t @ [u\<lparr>role := None, status := None\<rparr>]))\<rparr>))))"

text \<open>
  Modelled from the spec: \<^verbatim>\<open>UserStorage.saveUserRole\<close> and
  \<^verbatim>\<open>UserStorage.saveUserStatus\<close> are not among the sources
  (\<open>setSubAttribute(tenantID, id, attributeName, value)\<close>).
\<close>

definition saveUserRole :: "tenantID \<Rightarrow> nat \<Rightarrow> UserRole \<Rightarrow> sys \<Rightarrow> (error + unit) \<times> sys" where
  "saveUserRole t i r s =
     (case nextFault s of
        Some m \<Rightarrow> (Inl (Error m), called s)
      | None \<Rightarrow>
          (Inr (),
           called (s\<lparr>users := (users s)(t :=
             map (\<lambda>x. if user_id x = Some i then x\<lparr>role := Some r\<rparr> else x) (users s t))\<rparr>)))"

definition saveUserStatus :: "tenantID \<Rightarrow> nat \<Rightarrow> UserStatus \<Rightarrow> sys \<Rightarrow> (error + unit) \<times> sys" where
  "saveUserStatus t i st s =
     (case nextFault s of
        Some m \<Rightarrow> (Inl (Error m), called s)
      | None \<Rightarrow>
          (Inr (),
           called (s\<lparr>users := (users s)(t :=
             map (\<lambda>x. if user_id x = Some i then x\<lparr>status := Some st\<rparr> else x) (users s t))\<rparr>)))"

subsection \<open>Logging\<close>

text \<open>
  Modelled from the spec: the \<^verbatim>\<open>Logging\<close> class is not among the sources (the
  result reporter of section 6). A call that completes adds its entry to the log.
\<close>

definition logging :: "LogEntry \<Rightarrow> sys \<Rightarrow> (error + unit) \<times> sys" where
  "logging e s =
     (case nextFault s of
        Some m \<Rightarrow> (Inl (Error m), called s)
      | None \<Rightarrow> (Inr (), called (s\<lparr>logs := logs s @ [e]\<rparr>)))"

text \<open>
  Modelled from the spec: \<^verbatim>\<open>Utils.isEmptyArray\<close> is not among the sources (the
  loop stops when a fetched page is empty).
\<close>

definition isEmptyArray :: "'a list \<Rightarrow> bool" where
  "isEmptyArray xs = (xs = [])"

subsection \<open>The task\<close>

text \<open>
  Lines 47 to 90, the body of the inner \<^verbatim>\<open>try\<close>: the merge of one imported user.
  \<open>Inl\<close> is the exception it throws.
\<close>

definition importUser :: "tenantID \<Rightarrow> ImportedUser \<Rightarrow> sys \<Rightarrow> (error + unit) \<times> sys" where
  "importUser t importedUser s =
     (case getUserByEmail t (imp_email importedUser) s of
        (Inl e, s1) \<Rightarrow> (Inl e, s1)
      | (Inr (Some foundUser), s1) \<Rightarrow>
          if \<not> issuer foundUser then (Inl (Error ''User is not local to the organization''), s1)
          else if deleted foundUser then (Inl (Error ''User is deleted''), s1)
          else if status foundUser \<noteq> Some PENDING
            then (Inl (Error ''User account is no longer pending''), s1)
          else
            (case saveUser t (foundUser\<lparr>name := imp_name importedUser,
                                         firstName := imp_firstName importedUser\<rparr>) s1 of
               (Inl e, s2) \<Rightarrow> (Inl e, s2)
             | (Inr _, s2) \<Rightarrow> deleteImportedUser t (imp_id importedUser) s2)
      | (Inr None, s1) \<Rightarrow>
          (let user = \<lparr>user_id = None,
                       firstName = imp_firstName importedUser,
                       name = imp_name importedUser,
                       email = imp_email importedUser,
                       user_locale = None,
                       issuer = True,
                       deleted = False,
                       role = Some BASIC,
                       status = Some ACTIVE,
                       createdBy = Some (importedBy importedUser),
                       createdOn = Some (importedOn importedUser),
                       notificationsActive = True\<rparr>
           in case saveUser t user s1 of
                (Inl e, s2) \<Rightarrow> (Inl e, s2)
              | (Inr i, s2) \<Rightarrow>
                  (case saveUserRole t i BASIC s2 of
                     (Inl e, s3) \<Rightarrow> (Inl e, s3)
                   | (Inr _, s3) \<Rightarrow>
                       (case saveUserStatus t i ACTIVE s3 of
                          (Inl e, s4) \<Rightarrow> (Inl e, s4)
                        | (Inr _, s4) \<Rightarrow> deleteImportedUser t (imp_id importedUser) s4))))"

text \<open>
  Lines 45 to 105: the inner \<^verbatim>\<open>try\<close> with its \<^verbatim>\<open>catch\<close>. \<open>Inl\<close> is an
  exception that leaves the \<^verbatim>\<open>catch\<close> block itself.
\<close>

definition processImportedUser ::
  "tenantID \<Rightarrow> ImportedUser \<Rightarrow> ActionsResponse \<Rightarrow> sys \<Rightarrow> (error + ActionsResponse) \<times> sys" where
  "processImportedUser t importedUser result s =
     (case importUser t importedUser s of
        (Inr _, s1) \<Rightarrow> (Inr (result\<lparr>inSuccess := inSuccess result + 1\<rparr>), s1)
      | (Inl e, s1) \<Rightarrow>
          (let importedUser' = importedUser\<lparr>imp_status := ERROR,
                                            imp_errorDescription := Some (message e)\<rparr>;
               result' = result\<lparr>inError := inError result + 1\<rparr>
           in case saveImportedUser t importedUser' s1 of
                (Inl e', s2) \<Rightarrow> (Inl e', s2)
              | (Inr _, s2) \<Rightarrow>
                  (case logging (LogError t importedUser' (message e)) s2 of
                     (Inl e', s3) \<Rightarrow> (Inl e', s3)
                   | (Inr _, s3) \<Rightarrow> (Inr result', s3))))"

text \<open>Lines 44 to 106: the \<^verbatim>\<open>for\<close> loop over the users of a page.\<close>

fun processImportedUsers ::
  "tenantID \<Rightarrow> ImportedUser list \<Rightarrow> ActionsResponse \<Rightarrow> sys \<Rightarrow> (error + ActionsResponse) \<times> sys" where
  "processImportedUsers t [] result s = (Inr result, s)"
| "processImportedUsers t (importedUser # rest) result s =
     (case processImportedUser t importedUser result s of
        (Inl e, s1) \<Rightarrow> (Inl e, s1)
      | (Inr result1, s1) \<Rightarrow> processImportedUsers t rest result1 s1)"

text \<open>Lines 108 to 116: the progress entry after a page.\<close>

definition logProgress ::
  "tenantID \<Rightarrow> nat \<Rightarrow> ImportedUser list \<Rightarrow> ActionsResponse \<Rightarrow> sys \<Rightarrow> (error + unit) \<times> sys" where
  "logProgress t totalUsersToImport page result s =
     (if length page > 0 \<and> inError result + inSuccess result > 0
      then logging (LogDebug t (inError result + inSuccess result) totalUsersToImport) s
      else (Inr (), s))"

text \<open>The READY imported users of a list, and how many a tenant has.\<close>

definition ready :: "ImportedUser list \<Rightarrow> ImportedUser list" where
  "ready cs = filter (\<lambda>c. imp_status c = READY) cs"

definition readyCount :: "tenantID \<Rightarrow> sys \<Rightarrow> nat" where
  "readyCount t s = length (ready (importedUsers s t))"

subsection \<open>What one imported user does to the staging store\<close>

lemma called_stores [simp]:
  "importedUsers (called s) = importedUsers s" "users (called s) = users s"
  "locks (called s) = locks s" "logs (called s) = logs s"
  by (simp_all add: called_def)

lemmas store_defs = getUserByEmail_def saveUser_def saveUserRole_def saveUserStatus_def
  deleteImportedUser_def saveImportedUser_def logging_def

lemma importUser_Inl_staging:
  "importUser t c s = (Inl e, s') \<Longrightarrow> importedUsers s' = importedUsers s"
  by (auto simp: importUser_def store_defs Let_def split: option.splits if_splits)

lemma importUser_Inr_staging:
  "importUser t c s = (Inr u, s') \<Longrightarrow>
     importedUsers s' =
       (importedUsers s)(t := filter (\<lambda>x. imp_id x \<noteq> imp_id c) (importedUsers s t))"
  by (auto simp: importUser_def store_defs Let_def split: option.splits if_splits)

lemma processImportedUser_staging:
  "processImportedUser t c r s = (Inr r', s') \<Longrightarrow>
     (importedUsers s' =
        (importedUsers s)(t := filter (\<lambda>x. imp_id x \<noteq> imp_id c) (importedUsers s t))
        \<and> r' = r\<lparr>inSuccess := inSuccess r + 1\<rparr>)
     \<or> (\<exists>m. importedUsers s' = (importedUsers s)(t :=
            upsertImportedUser (c\<lparr>imp_status := ERROR, imp_errorDescription := Some m\<rparr>)
              (importedUsers s t))
        \<and> r' = r\<lparr>inError := inError r + 1\<rparr>)"
  apply (simp add: processImportedUser_def Let_def split: prod.splits sum.splits)
   apply (auto dest!: importUser_Inl_staging importUser_Inr_staging
      simp: saveImportedUser_def logging_def split: option.splits)
  done

subsection \<open>Every processed user leaves the READY users\<close>

lemma ready_delete_le:
  "length (ready (filter (\<lambda>x. imp_id x \<noteq> i) cs)) \<le> length (ready cs)"
  by (induction cs) (auto simp: ready_def)

lemma ready_delete_less:
  "c \<in> set cs \<Longrightarrow> imp_status c = READY \<Longrightarrow>
     length (ready (filter (\<lambda>x. imp_id x \<noteq> imp_id c) cs)) < length (ready cs)"
proof (induction cs)
  case Nil
  then show ?case by simp
next
  case (Cons x xs)
  show ?case
  proof (cases "x = c")
    case True
    with Cons.prems ready_delete_le [of "imp_id c" xs] show ?thesis
      by (simp add: ready_def)
  next
    case False
    with Cons show ?thesis by (auto simp: ready_def)
  qed
qed

lemma ready_map_le:
  "imp_status c' = ERROR \<Longrightarrow>
     length (ready (map (\<lambda>x. if imp_id x = i then c' else x) cs)) \<le> length (ready cs)"
  by (induction cs) (auto simp: ready_def)

lemma ready_map_less:
  "imp_status c' = ERROR \<Longrightarrow> c \<in> set cs \<Longrightarrow> imp_status c = READY \<Longrightarrow>
     length (ready (map (\<lambda>x. if imp_id x = imp_id c then c' else x) cs)) < length (ready cs)"
proof (induction cs)
  case Nil
  then show ?case by simp
next
  case (Cons x xs)
  show ?case
  proof (cases "x = c")
    case True
    with Cons.prems ready_map_le [of c' "imp_id c" xs] show ?thesis
      by (simp add: ready_def)
  next
    case False
    with Cons show ?thesis by (auto simp: ready_def)
  qed
qed

lemma ready_upsert_le:
  "imp_status c' = ERROR \<Longrightarrow> length (ready (upsertImportedUser c' cs)) \<le> length (ready cs)"
  using ready_map_le [of c' "imp_id c'" cs]
  by (simp add: upsertImportedUser_def) (simp add: ready_def)

lemma ready_upsert_less:
  "imp_status c' = ERROR \<Longrightarrow> imp_id c' = imp_id c \<Longrightarrow> c \<in> set cs \<Longrightarrow>
     imp_status c = READY \<Longrightarrow>
     length (ready (upsertImportedUser c' cs)) < length (ready cs)"
  using ready_map_less [of c' c cs]
  by (auto simp: upsertImportedUser_def list_ex_iff)

lemma processImportedUser_le:
  "processImportedUser t c r s = (Inr r', s') \<Longrightarrow> readyCount t s' \<le> readyCount t s"
  by (auto dest!: processImportedUser_staging
      simp: readyCount_def ready_delete_le ready_upsert_le)

lemma processImportedUser_less:
  "processImportedUser t c r s = (Inr r', s') \<Longrightarrow> c \<in> set (importedUsers s t) \<Longrightarrow>
     imp_status c = READY \<Longrightarrow> readyCount t s' < readyCount t s"
  by (auto dest!: processImportedUser_staging
      simp: readyCount_def ready_delete_less ready_upsert_less)

lemma processImportedUsers_le:
  "processImportedUsers t cs r s = (Inr r', s') \<Longrightarrow> readyCount t s' \<le> readyCount t s"
proof (induction cs arbitrary: r s)
  case Nil
  then show ?case by simp
next
  case (Cons c cs)
  then show ?case
    by (auto split: prod.splits sum.splits dest!: processImportedUser_le) fastforce
qed

lemma processImportedUsers_less:
  assumes "processImportedUsers t (c # cs) r s = (Inr r', s')"
    and "c \<in> set (importedUsers s t)" and "imp_status c = READY"
  shows "readyCount t s' < readyCount t s"
proof -
  from assms(1) obtain r1 s1 where
    1: "processImportedUser t c r s = (Inr r1, s1)" and
    2: "processImportedUsers t cs r1 s1 = (Inr r', s')"
    by (auto split: prod.splits sum.splits)
  from processImportedUser_less [OF 1 assms(2,3)] processImportedUsers_le [OF 2]
  show ?thesis by simp
qed

lemma getImportedUsers_page:
  "getImportedUsers t st limit skip s = (Inr page, s') \<Longrightarrow>
     page = take limit (drop skip (filter (\<lambda>c. imp_status c = st) (importedUsers s t)))
     \<and> s' = called s"
  by (auto simp: getImportedUsers_def split: option.splits)

lemma logProgress_stores:
  "logProgress t n page r s = (x, s') \<Longrightarrow>
     importedUsers s' = importedUsers s \<and> users s' = users s \<and> locks s' = locks s"
  by (auto simp: logProgress_def logging_def split: option.splits if_splits)

subsection \<open>The page loop and the task\<close>

text \<open>
  Lines 42 to 116, the body of the \<^verbatim>\<open>do\<close> loop: one page is fetched (READY users,
  \<open>limit\<close> the page size, \<open>skip\<close> 0), its users are processed, the progress is logged.
  It returns the page with the counters. \<^verbatim>\<open>Constants.IMPORT_PAGE_SIZE\<close> is not
  among the sources: the page size is a parameter.
\<close>

definition importPage ::
  "nat \<Rightarrow> tenantID \<Rightarrow> nat \<Rightarrow> ActionsResponse \<Rightarrow> sys
     \<Rightarrow> (error + ImportedUser list \<times> ActionsResponse) \<times> sys" where
  "importPage pageSize t totalUsersToImport result s =
     (case getImportedUsers t READY pageSize 0 s of
        (Inl e, s1) \<Rightarrow> (Inl e, s1)
      | (Inr page, s1) \<Rightarrow>
          (case processImportedUsers t page result s1 of
             (Inl e, s2) \<Rightarrow> (Inl e, s2)
           | (Inr result2, s2) \<Rightarrow>
               (case logProgress t totalUsersToImport page result2 s2 of
                  (Inl e, s3) \<Rightarrow> (Inl e, s3)
                | (Inr _, s3) \<Rightarrow> (Inr (page, result2), s3))))"

lemma importPage_less:
  assumes "importPage pageSize t n r s = (Inr (page, r'), s')" and "\<not> isEmptyArray page"
  shows "readyCount t s' < readyCount t s"
proof -
  from assms(1) obtain s1 s2 where
    fetch: "getImportedUsers t READY pageSize 0 s = (Inr page, s1)" and
    proc: "processImportedUsers t page r s1 = (Inr r', s2)" and
    log: "logProgress t n page r' s2 = (Inr (), s')"
    by (auto simp: importPage_def split: prod.splits sum.splits)
  from fetch have p: "page = take pageSize (ready (importedUsers s t))"
    and s1: "importedUsers s1 = importedUsers s"
    by (auto dest!: getImportedUsers_page simp: ready_def)
  from assms(2) obtain c cs where pc: "page = c # cs"
    by (cases page) (auto simp: isEmptyArray_def)
  then have "c \<in> set page" by simp
  with p have "c \<in> set (ready (importedUsers s t))"
    by (auto dest: in_set_takeD)
  then have c: "c \<in> set (importedUsers s1 t)" "imp_status c = READY"
    by (simp_all add: s1 ready_def)
  from proc pc have "processImportedUsers t (c # cs) r s1 = (Inr r', s2)"
    by simp
  from processImportedUsers_less [OF this c] have "readyCount t s2 < readyCount t s1" .
  moreover from logProgress_stores [OF log] have "readyCount t s' = readyCount t s2"
    by (simp add: readyCount_def)
  moreover have "readyCount t s1 = readyCount t s"
    by (simp add: readyCount_def s1)
  ultimately show ?thesis by simp
qed

text \<open>
  Lines 41 to 117: \<^verbatim>\<open>do { ... } while (!Utils.isEmptyArray(importedUsers?.result))\<close>. The
  loop ends since every page that is not empty leaves fewer READY users.
\<close>

function importLoop ::
  "nat \<Rightarrow> tenantID \<Rightarrow> nat \<Rightarrow> ActionsResponse \<Rightarrow> sys \<Rightarrow> (error + ActionsResponse) \<times> sys" where
  "importLoop pageSize t totalUsersToImport result s =
     (case importPage pageSize t totalUsersToImport result s of
        (Inl e, s1) \<Rightarrow> (Inl e, s1)
      | (Inr (page, result1), s1) \<Rightarrow>
          if \<not> isEmptyArray page
          then importLoop pageSize t totalUsersToImport result1 s1
          else (Inr result1, s1))"
  by pat_completeness auto
termination
proof (relation "measure (\<lambda>(pageSize, t, totalUsersToImport, result, s). readyCount t s)")
  show "wf (measure (\<lambda>(pageSize, t, totalUsersToImport, result, s). readyCount t s))"
    by simp
next
  fix pageSize t n and result :: ActionsResponse and s x s1 pr page result1
  assume "(x, s1) = importPage pageSize t n result s" "x = Inr pr" "(page, result1) = pr"
    "\<not> isEmptyArray page"
  then have "importPage pageSize t n result s = (Inr (page, result1), s1)"
    by simp
  from importPage_less [OF this \<open>\<not> isEmptyArray page\<close>]
  show "((pageSize, t, n, result1, s1), (pageSize, t, n, result, s))
          \<in> measure (\<lambda>(pageSize, t, totalUsersToImport, result, s). readyCount t s)"
    by simp
qed

declare importLoop.simps [simp del]

text \<open>
  The counters and the state with which the loop enters its next iteration once \<open>k\<close>
  pages have been processed and none of them was empty; \<open>None\<close> when the loop has
  ended before.
\<close>

fun pagesDone ::
  "nat \<Rightarrow> tenantID \<Rightarrow> nat \<Rightarrow> nat \<Rightarrow> ActionsResponse \<Rightarrow> sys \<Rightarrow> (ActionsResponse \<times> sys) option" where
  "pagesDone pageSize t n 0 r s = Some (r, s)"
| "pagesDone pageSize t n (Suc k) r s =
     (case importPage pageSize t n r s of
        (Inl e, s1) \<Rightarrow> None
      | (Inr (page, r1), s1) \<Rightarrow>
          if \<not> isEmptyArray page then pagesDone pageSize t n k r1 s1 else None)"

text \<open>Lines 33 to 40: the entry that announces the users to import.\<close>

definition logTotal :: "tenantID \<Rightarrow> nat \<Rightarrow> sys \<Rightarrow> (error + unit) \<times> sys" where
  "logTotal t totalUsersToImport s =
     (if totalUsersToImport > 0 then logging (LogInfo t totalUsersToImport) s else (Inr (), s))"

text \<open>
  Lines 24 to 125, the body of the outer \<^verbatim>\<open>try\<close>: the count, the loop over the pages,
  the report of the counters (\<^verbatim>\<open>Logging.logActionsResponse\<close>).
\<close>

definition importUsers :: "nat \<Rightarrow> tenantID \<Rightarrow> sys \<Rightarrow> (error + unit) \<times> sys" where
  "importUsers pageSize t s =
     (case getImportedUsersCount t s of
        (Inl e, s1) \<Rightarrow> (Inl e, s1)
      | (Inr totalUsersToImport, s1) \<Rightarrow>
          (case logTotal t totalUsersToImport s1 of
             (Inl e, s2) \<Rightarrow> (Inl e, s2)
           | (Inr _, s2) \<Rightarrow>
               (case importLoop pageSize t totalUsersToImport \<lparr>inError = 0, inSuccess = 0\<rparr> s2 of
                  (Inl e, s3) \<Rightarrow> (Inl e, s3)
                | (Inr result, s3) \<Rightarrow> logging (LogActionsResponse t result) s3)))"

text \<open>
  Lines 20 to 134, \<^verbatim>\<open>processTenant\<close>: without the lock the task returns at once;
  with it, an exception of the body goes to \<^verbatim>\<open>Logging.logActionExceptionMessage\<close>,
  and the \<^verbatim>\<open>finally\<close> block releases the lock, whatever happened. \<open>Inl\<close> is an
  exception that leaves the task: one of the \<^verbatim>\<open>catch\<close> block itself.
\<close>

definition processTenant :: "nat \<Rightarrow> tenantID \<Rightarrow> sys \<Rightarrow> (error + unit) \<times> sys" where
  "processTenant pageSize t s =
     (case createImportUsersLock t s of
        (None, s0) \<Rightarrow> (Inr (), s0)
      | (Some importUsersLock, s0) \<Rightarrow>
          (case importUsers pageSize t s0 of
             (Inr _, s1) \<Rightarrow> (Inr (), release importUsersLock s1)
           | (Inl e, s1) \<Rightarrow>
               (case logging (LogActionException t e) s1 of
                  (x, s2) \<Rightarrow> (x, release importUsersLock s2))))"

subsection \<open>Example data\<close>

text \<open>A READY imported user, and a state of one tenant with a schedule of faults.\<close>

definition candidate :: "nat \<Rightarrow> string \<Rightarrow> ImportedUser" where
  "candidate i e =
     \<lparr>imp_id = i, imp_email = e, imp_name = ''Doe'', imp_firstName = ''Jo'',
      imp_status = READY, imp_errorDescription = None,
      importedBy = ''admin'', importedOn = 7\<rparr>"

definition stateOf ::
  "ImportedUser list \<Rightarrow> User list \<Rightarrow> Lock list \<Rightarrow> string option list \<Rightarrow> sys" where
  "stateOf cs us ls fs =
     \<lparr>importedUsers = (\<lambda>_. cs), users = (\<lambda>_. us), locks = ls, logs = [], faults = fs\<rparr>"

text \<open>A local user that is not deleted, with role BASIC and the status given.\<close>

definition member :: "nat \<Rightarrow> string \<Rightarrow> UserStatus \<Rightarrow> User" where
  "member i e st =
     \<lparr>user_id = Some i, firstName = ''J.'', name = ''D.'', email = e, user_locale = None,
      issuer = True, deleted = False, role = Some BASIC, status = Some st,
      createdBy = None, createdOn = None, notificationsActive = True\<rparr>"


section \<open>Properties\<close>

text \<open>The equations that evaluate a run on a given state.\<close>

lemmas run_defs = processTenant_def createImportUsersLock_def release_def importUsers_def
  getImportedUsersCount_def logTotal_def logProgress_def importLoop.simps importPage_def
  getImportedUsers_def isEmptyArray_def processImportedUser_def importUser_def store_defs
  upsertImportedUser_def freshUserID_def nextFault_def called_def stateOf_def candidate_def
  Let_def

subsection \<open>The lock\<close>

lemma importUser_locks:
  "importUser t c s = (x, s') \<Longrightarrow> locks s' = locks s"
  by (auto simp: importUser_def store_defs Let_def split: option.splits if_splits)

lemma processImportedUser_locks:
  "processImportedUser t c r s = (x, s') \<Longrightarrow> locks s' = locks s"
  by (auto simp: processImportedUser_def Let_def saveImportedUser_def logging_def
      dest!: importUser_locks split: prod.splits sum.splits option.splits)

lemma processImportedUsers_locks:
  "processImportedUsers t cs r s = (x, s') \<Longrightarrow> locks s' = locks s"
proof (induction cs arbitrary: r s)
  case Nil
  then show ?case by simp
next
  case (Cons c cs)
  then show ?case
    by (auto split: prod.splits sum.splits dest!: processImportedUser_locks)
qed

lemma importPage_locks:
  "importPage pageSize t n r s = (x, s') \<Longrightarrow> locks s' = locks s"
  by (auto simp: importPage_def getImportedUsers_def
      dest!: processImportedUsers_locks logProgress_stores
      split: prod.splits sum.splits option.splits)

lemma importLoop_locks:
  "importLoop pageSize t n r s = (x, s') \<Longrightarrow> locks s' = locks s"
proof (induction pageSize t n r s rule: importLoop.induct)
  case (1 pageSize t n r s)
  show ?case
  proof (cases "importPage pageSize t n r s")
    case (Pair y s1)
    then have l1: "locks s1 = locks s" by (rule importPage_locks)
    show ?thesis
    proof (cases y)
      case (Inl e)
      with Pair "1.prems" l1 show ?thesis
        by (simp add: importLoop.simps)
    next
      case (Inr pr)
      obtain page r1 where pr: "pr = (page, r1)" by (cases pr)
      show ?thesis
      proof (cases "isEmptyArray page")
        case True
        with Pair Inr pr "1.prems" l1 show ?thesis
          by (simp add: importLoop.simps)
      next
        case False
        with Pair Inr pr "1.prems" have "importLoop pageSize t n r1 s1 = (x, s')"
          by (simp add: importLoop.simps)
        with "1.IH" [OF Pair [symmetric] Inr pr [symmetric] False] l1 show ?thesis
          by simp
      qed
    qed
  qed
qed

lemma importUsers_locks:
  "importUsers pageSize t s = (x, s') \<Longrightarrow> locks s' = locks s"
  by (auto simp: importUsers_def getImportedUsersCount_def logTotal_def logging_def
      dest!: importLoop_locks
      split: prod.splits sum.splits option.splits if_splits)


text \<open>
  C2. When the lock coordinator grants no lock, the task returns at once, without an
  exception, and leaves the whole state as it was: no write to the staging store, none
  to the canonical store, no log entry.
\<close>

theorem lock_denied_no_write:
  assumes "fst (createImportUsersLock t s) = None"
  shows "processTenant pageSize t s = (Inr (), s)
     \<and> importedUsers (snd (processTenant pageSize t s)) = importedUsers s
     \<and> users (snd (processTenant pageSize t s)) = users s"
  using assms by (auto simp: processTenant_def createImportUsersLock_def split: if_splits)

theorem lock_denied_no_write_witness:
  "fst (createImportUsersLock ''T''
      (stateOf [candidate 1 ''a@x.com''] [] [(''T'', ''import'')] [])) = None
   \<and> processTenant 2 ''T'' (stateOf [candidate 1 ''a@x.com''] [] [(''T'', ''import'')] [])
       = (Inr (), stateOf [candidate 1 ''a@x.com''] [] [(''T'', ''import'')] [])"
proof -
  have h: "fst (createImportUsersLock ''T''
      (stateOf [candidate 1 ''a@x.com''] [] [(''T'', ''import'')] [])) = None"
    by (simp add: createImportUsersLock_def stateOf_def)
  from lock_denied_no_write [OF h, of 2] h show ?thesis by simp
qed

text \<open>
  C1. A task that acquires the lock \<open>l\<close> runs the body of its \<^verbatim>\<open>try\<close> with \<open>l\<close>
  held, and \<open>l\<close> is still held when the body ends, whatever faults are injected (into
  the merge of a user, a page fetch, the report of the counters or any other call). When
  the body ends normally, the task ends in the state \<open>release l\<close> makes of the state the
  body left. When the body ends with an exception, the outer \<^verbatim>\<open>catch\<close> logs it, \<open>l\<close>
  is still held then, and the task ends in the state \<open>release l\<close> makes of that one. In
  both cases \<open>l\<close> is not held after the task, the locks held are those held before it,
  and the next acquisition of the tenant's import lock succeeds.
\<close>

theorem lock_released_on_every_exit:
  assumes "createImportUsersLock t s = (Some l, s0)"
  shows "l \<in> set (locks s0)
     \<and> l \<in> set (locks (snd (importUsers pageSize t s0)))
     \<and> (\<forall>u s1. importUsers pageSize t s0 = (Inr u, s1) \<longrightarrow>
            processTenant pageSize t s = (Inr (), release l s1))
     \<and> (\<forall>e s1. importUsers pageSize t s0 = (Inl e, s1) \<longrightarrow>
            l \<in> set (locks (snd (logging (LogActionException t e) s1)))
          \<and> processTenant pageSize t s =
              (fst (logging (LogActionException t e) s1),
               release l (snd (logging (LogActionException t e) s1))))
     \<and> l \<notin> set (locks (snd (processTenant pageSize t s)))
     \<and> locks (snd (processTenant pageSize t s)) = locks s
     \<and> (\<exists>s2. createImportUsersLock t (snd (processTenant pageSize t s)) = (Some l, s2))"
proof -
  from assms have l: "l = (t, ''import'')" and free: "(t, ''import'') \<notin> set (locks s)"
    and s0: "locks s0 = (t, ''import'') # locks s"
    by (auto simp: createImportUsersLock_def split: if_splits)
  obtain y s1 where body: "importUsers pageSize t s0 = (y, s1)"
    by (cases "importUsers pageSize t s0")
  then have l1: "locks s1 = locks s0" by (rule importUsers_locks)
  have held: "l \<in> set (locks s0)" "l \<in> set (locks (snd (importUsers pageSize t s0)))"
    using s0 l l1 body by simp_all
  have lg: "locks (snd (logging (LogActionException t e) s1)) = locks s1" for e
    by (simp add: logging_def split: option.splits)
  have normal: "processTenant pageSize t s = (Inr (), release l s1)" if "y = Inr u" for u
    using that assms body by (simp add: processTenant_def)
  have fault: "processTenant pageSize t s =
              (fst (logging (LogActionException t e) s1),
               release l (snd (logging (LogActionException t e) s1)))" if "y = Inl e" for e
    using that assms body by (simp add: processTenant_def split: prod.splits)
  have after: "locks (snd (processTenant pageSize t s)) = locks s"
  proof (cases y)
    case (Inl e)
    with fault [OF Inl] lg [of e] l1 s0 l free show ?thesis
      by (simp add: release_def)
  next
    case (Inr u)
    with normal [OF Inr] l1 s0 l free show ?thesis
      by (simp add: release_def)
  qed
  with free l have gone: "l \<notin> set (locks (snd (processTenant pageSize t s)))"
    by simp
  with l have again: "\<exists>s2. createImportUsersLock t (snd (processTenant pageSize t s)) = (Some l, s2)"
    by (simp add: createImportUsersLock_def)
  show ?thesis
    using held body normal fault lg l1 s0 l after gone again by auto
qed

theorem lock_released_on_every_exit_witness:
  "fst (importUsers 1 ''T'' (stateOf [candidate 1 ''a@x.com''] [] [(''T'', ''import'')]
        [])) = Inr ()
   \<and> (''T'', ''import'') \<in> set (locks (snd (importUsers 1 ''T'' (stateOf [candidate 1 ''a@x.com''] [] [(''T'', ''import'')]
        []))))
   \<and> processTenant 1 ''T'' (stateOf [candidate 1 ''a@x.com''] [] []
        [])
     = (Inr (), release (''T'', ''import'') (snd (importUsers 1 ''T'' (stateOf [candidate 1 ''a@x.com''] [] [(''T'', ''import'')]
        []))))
   \<and> locks (snd (processTenant 1 ''T'' (stateOf [candidate 1 ''a@x.com''] [] []
        []))) = []
   \<and> fst (importUsers 1 ''T'' (stateOf [candidate 1 ''a@x.com''] [] [(''T'', ''import'')]
        [None, None, None, Some ''merge''])) = Inr ()
   \<and> (''T'', ''import'') \<in> set (locks (snd (importUsers 1 ''T'' (stateOf [candidate 1 ''a@x.com''] [] [(''T'', ''import'')]
        [None, None, None, Some ''merge'']))))
   \<and> processTenant 1 ''T'' (stateOf [candidate 1 ''a@x.com''] [] []
        [None, None, None, Some ''merge''])
     = (Inr (), release (''T'', ''import'') (snd (importUsers 1 ''T'' (stateOf [candidate 1 ''a@x.com''] [] [(''T'', ''import'')]
        [None, None, None, Some ''merge'']))))
   \<and> locks (snd (processTenant 1 ''T'' (stateOf [candidate 1 ''a@x.com''] [] []
        [None, None, None, Some ''merge'']))) = []
   \<and> fst (importUsers 1 ''T'' (stateOf [candidate 1 ''a@x.com''] [] [(''T'', ''import'')]
        [None, None, Some ''page''])) = Inl (Error ''page'')
   \<and> (''T'', ''import'') \<in> set (locks (snd (importUsers 1 ''T'' (stateOf [candidate 1 ''a@x.com''] [] [(''T'', ''import'')]
        [None, None, Some ''page'']))))
   \<and> processTenant 1 ''T'' (stateOf [candidate 1 ''a@x.com''] [] []
        [None, None, Some ''page''])
     = (Inr (), release (''T'', ''import'')
         (snd (logging (LogActionException ''T'' (Error ''page'')) (snd (importUsers 1 ''T'' (stateOf [candidate 1 ''a@x.com''] [] [(''T'', ''import'')]
        [None, None, Some ''page'']))))))
   \<and> locks (snd (processTenant 1 ''T'' (stateOf [candidate 1 ''a@x.com''] [] []
        [None, None, Some ''page'']))) = []
   \<and> fst (importUsers 1 ''T'' (stateOf [candidate 1 ''a@x.com''] [] [(''T'', ''import'')]
        [None, None, None, None, None, None, None, None, None, None, Some ''report''])) = Inl (Error ''report'')
   \<and> (''T'', ''import'') \<in> set (locks (snd (importUsers 1 ''T'' (stateOf [candidate 1 ''a@x.com''] [] [(''T'', ''import'')]
        [None, None, None, None, None, None, None, None, None, None, Some ''report'']))))
   \<and> processTenant 1 ''T'' (stateOf [candidate 1 ''a@x.com''] [] []
        [None, None, None, None, None, None, None, None, None, None, Some ''report''])
     = (Inr (), release (''T'', ''import'')
         (snd (logging (LogActionException ''T'' (Error ''report'')) (snd (importUsers 1 ''T'' (stateOf [candidate 1 ''a@x.com''] [] [(''T'', ''import'')]
        [None, None, None, None, None, None, None, None, None, None, Some ''report'']))))))
   \<and> locks (snd (processTenant 1 ''T'' (stateOf [candidate 1 ''a@x.com''] [] []
        [None, None, None, None, None, None, None, None, None, None, Some ''report'']))) = []"
proof -
  define sa where "sa = snd (importUsers 1 ''T'' (stateOf [candidate 1 ''a@x.com''] [] [(''T'', ''import'')]
        []))"
  have ha: "createImportUsersLock ''T'' (stateOf [candidate 1 ''a@x.com''] [] []
        [])
      = (Some (''T'', ''import''), stateOf [candidate 1 ''a@x.com''] [] [(''T'', ''import'')]
        [])"
    by (simp add: createImportUsersLock_def stateOf_def)
  have ba: "importUsers 1 ''T'' (stateOf [candidate 1 ''a@x.com''] [] [(''T'', ''import'')]
        []) = (Inr (), sa)"
    by (simp add: sa_def run_defs)
  note ta = lock_released_on_every_exit [OF ha, of 1]
  from ba have oa: "fst (importUsers 1 ''T'' (stateOf [candidate 1 ''a@x.com''] [] [(''T'', ''import'')]
        [])) = Inr ()" by simp
  from ta have ma: "(''T'', ''import'') \<in> set (locks (snd (importUsers 1 ''T'' (stateOf [candidate 1 ''a@x.com''] [] [(''T'', ''import'')]
        []))))" by blast
  from ta have "locks (snd (processTenant 1 ''T'' (stateOf [candidate 1 ''a@x.com''] [] []
        []))) = locks (stateOf [candidate 1 ''a@x.com''] [] []
        [])" by blast
  then have la: "locks (snd (processTenant 1 ''T'' (stateOf [candidate 1 ''a@x.com''] [] []
        []))) = []"
    by (simp add: stateOf_def)
  from ta ba have pa: "processTenant 1 ''T'' (stateOf [candidate 1 ''a@x.com''] [] []
        []) = (Inr (), release (''T'', ''import'') (sa))"
    by blast
  define sb where "sb = snd (importUsers 1 ''T'' (stateOf [candidate 1 ''a@x.com''] [] [(''T'', ''import'')]
        [None, None, None, Some ''merge'']))"
  have hb: "createImportUsersLock ''T'' (stateOf [candidate 1 ''a@x.com''] [] []
        [None, None, None, Some ''merge''])
      = (Some (''T'', ''import''), stateOf [candidate 1 ''a@x.com''] [] [(''T'', ''import'')]
        [None, None, None, Some ''merge''])"
    by (simp add: createImportUsersLock_def stateOf_def)
  have bb: "importUsers 1 ''T'' (stateOf [candidate 1 ''a@x.com''] [] [(''T'', ''import'')]
        [None, None, None, Some ''merge'']) = (Inr (), sb)"
    by (simp add: sb_def run_defs)
  note tb = lock_released_on_every_exit [OF hb, of 1]
  from bb have ob: "fst (importUsers 1 ''T'' (stateOf [candidate 1 ''a@x.com''] [] [(''T'', ''import'')]
        [None, None, None, Some ''merge''])) = Inr ()" by simp
  from tb have mb: "(''T'', ''import'') \<in> set (locks (snd (importUsers 1 ''T'' (stateOf [candidate 1 ''a@x.com''] [] [(''T'', ''import'')]
        [None, None, None, Some ''merge'']))))" by blast
  from tb have "locks (snd (processTenant 1 ''T'' (stateOf [candidate 1 ''a@x.com''] [] []
        [None, None, None, Some ''merge'']))) = locks (stateOf [candidate 1 ''a@x.com''] [] []
        [None, None, None, Some ''merge''])" by blast
  then have lb: "locks (snd (processTenant 1 ''T'' (stateOf [candidate 1 ''a@x.com''] [] []
        [None, None, None, Some ''merge'']))) = []"
    by (simp add: stateOf_def)
  from tb bb have pb: "processTenant 1 ''T'' (stateOf [candidate 1 ''a@x.com''] [] []
        [None, None, None, Some ''merge'']) = (Inr (), release (''T'', ''import'') (sb))"
    by blast
  define sc where "sc = snd (importUsers 1 ''T'' (stateOf [candidate 1 ''a@x.com''] [] [(''T'', ''import'')]
        [None, None, Some ''page'']))"
  have hc: "createImportUsersLock ''T'' (stateOf [candidate 1 ''a@x.com''] [] []
        [None, None, Some ''page''])
      = (Some (''T'', ''import''), stateOf [candidate 1 ''a@x.com''] [] [(''T'', ''import'')]
        [None, None, Some ''page''])"
    by (simp add: createImportUsersLock_def stateOf_def)
  have bc: "importUsers 1 ''T'' (stateOf [candidate 1 ''a@x.com''] [] [(''T'', ''import'')]
        [None, None, Some ''page'']) = (Inl (Error ''page''), sc)"
    by (simp add: sc_def run_defs)
  note tc = lock_released_on_every_exit [OF hc, of 1]
  from bc have oc: "fst (importUsers 1 ''T'' (stateOf [candidate 1 ''a@x.com''] [] [(''T'', ''import'')]
        [None, None, Some ''page''])) = Inl (Error ''page'')" by simp
  from tc have mc: "(''T'', ''import'') \<in> set (locks (snd (importUsers 1 ''T'' (stateOf [candidate 1 ''a@x.com''] [] [(''T'', ''import'')]
        [None, None, Some ''page'']))))" by blast
  from tc have "locks (snd (processTenant 1 ''T'' (stateOf [candidate 1 ''a@x.com''] [] []
        [None, None, Some ''page'']))) = locks (stateOf [candidate 1 ''a@x.com''] [] []
        [None, None, Some ''page''])" by blast
  then have lc: "locks (snd (processTenant 1 ''T'' (stateOf [candidate 1 ''a@x.com''] [] []
        [None, None, Some ''page'']))) = []"
    by (simp add: stateOf_def)
  have "fst (logging (LogActionException ''T'' (Error ''page'')) sc) = Inr ()"
    by (simp add: sc_def run_defs)
  moreover from tc bc have "processTenant 1 ''T'' (stateOf [candidate 1 ''a@x.com''] [] []
        [None, None, Some ''page''])
      = (fst (logging (LogActionException ''T'' (Error ''page'')) sc),
         release (''T'', ''import'') (snd (logging (LogActionException ''T'' (Error ''page'')) sc)))"
    by blast
  ultimately have pc: "processTenant 1 ''T'' (stateOf [candidate 1 ''a@x.com''] [] []
        [None, None, Some ''page'']) = (Inr (), release (''T'', ''import'')
         (snd (logging (LogActionException ''T'' (Error ''page'')) (sc))))"
    by simp
  define sd where "sd = snd (importUsers 1 ''T'' (stateOf [candidate 1 ''a@x.com''] [] [(''T'', ''import'')]
        [None, None, None, None, None, None, None, None, None, None, Some ''report'']))"
  have hd: "createImportUsersLock ''T'' (stateOf [candidate 1 ''a@x.com''] [] []
        [None, None, None, None, None, None, None, None, None, None, Some ''report''])
      = (Some (''T'', ''import''), stateOf [candidate 1 ''a@x.com''] [] [(''T'', ''import'')]
        [None, None, None, None, None, None, None, None, None, None, Some ''report''])"
    by (simp add: createImportUsersLock_def stateOf_def)
  have bd: "importUsers 1 ''T'' (stateOf [candidate 1 ''a@x.com''] [] [(''T'', ''import'')]
        [None, None, None, None, None, None, None, None, None, None, Some ''report'']) = (Inl (Error ''report''), sd)"
    by (simp add: sd_def run_defs)
  note td = lock_released_on_every_exit [OF hd, of 1]
  from bd have od: "fst (importUsers 1 ''T'' (stateOf [candidate 1 ''a@x.com''] [] [(''T'', ''import'')]
        [None, None, None, None, None, None, None, None, None, None, Some ''report''])) = Inl (Error ''report'')" by simp
  from td have md: "(''T'', ''import'') \<in> set (locks (snd (importUsers 1 ''T'' (stateOf [candidate 1 ''a@x.com''] [] [(''T'', ''import'')]
        [None, None, None, None, None, None, None, None, None, None, Some ''report'']))))" by blast
  from td have "locks (snd (processTenant 1 ''T'' (stateOf [candidate 1 ''a@x.com''] [] []
        [None, None, None, None, None, None, None, None, None, None, Some ''report'']))) = locks (stateOf [candidate 1 ''a@x.com''] [] []
        [None, None, None, None, None, None, None, None, None, None, Some ''report''])" by blast
  then have ld: "locks (snd (processTenant 1 ''T'' (stateOf [candidate 1 ''a@x.com''] [] []
        [None, None, None, None, None, None, None, None, None, None, Some ''report'']))) = []"
    by (simp add: stateOf_def)
  have "fst (logging (LogActionException ''T'' (Error ''report'')) sd) = Inr ()"
    by (simp add: sd_def run_defs)
  moreover from td bd have "processTenant 1 ''T'' (stateOf [candidate 1 ''a@x.com''] [] []
        [None, None, None, None, None, None, None, None, None, None, Some ''report''])
      = (fst (logging (LogActionException ''T'' (Error ''report'')) sd),
         release (''T'', ''import'') (snd (logging (LogActionException ''T'' (Error ''report'')) sd)))"
    by blast
  ultimately have pd: "processTenant 1 ''T'' (stateOf [candidate 1 ''a@x.com''] [] []
        [None, None, None, None, None, None, None, None, None, None, Some ''report'']) = (Inr (), release (''T'', ''import'')
         (snd (logging (LogActionException ''T'' (Error ''report'')) (sd))))"
    by simp
  show ?thesis
    by (intro conjI) (rule oa ma pa [unfolded sa_def] la ob mb pb [unfolded sb_def] lb oc mc pc [unfolded sc_def] lc od md pd [unfolded sd_def] ld)+
qed

subsection \<open>The merge of one imported user\<close>

lemma noFault_Suc: "noFault (Suc k) s = (nextFault s = None \<and> noFault k (called s))"
  by (cases "faults s") (auto simp: noFault_def nextFault_def called_def)

lemma noFault_0 [simp]: "noFault 0 s"
  by (simp add: noFault_def)

lemma faults_upd [simp]:
  "nextFault (s\<lparr>users := u\<rparr>) = nextFault s"
  "nextFault (s\<lparr>importedUsers := c\<rparr>) = nextFault s"
  "nextFault (s\<lparr>logs := l\<rparr>) = nextFault s"
  "nextFault (s\<lparr>locks := k\<rparr>) = nextFault s"
  "called (s\<lparr>users := u\<rparr>) = (called s)\<lparr>users := u\<rparr>"
  "called (s\<lparr>importedUsers := c\<rparr>) = (called s)\<lparr>importedUsers := c\<rparr>"
  "called (s\<lparr>logs := l\<rparr>) = (called s)\<lparr>logs := l\<rparr>"
  "called (s\<lparr>locks := k\<rparr>) = (called s)\<lparr>locks := k\<rparr>"
  by (simp_all add: nextFault_def called_def)

lemma freshUserID_bound:
  "x \<in> set us \<Longrightarrow> user_id x = Some j \<Longrightarrow> j < freshUserID us"
  by (induction us) (auto simp: freshUserID_def split: option.splits)

lemma freshUserID_fresh: "x \<in> set us \<Longrightarrow> user_id x \<noteq> Some (freshUserID us)"
  using freshUserID_bound [of x us "freshUserID us"] by auto

lemma map_fresh [simp]:
  "map (\<lambda>x. if user_id x = Some (freshUserID us) then f x else x) us = us"
  by (rule map_idI) (simp add: freshUserID_fresh)


lemma upsertImportedUser_mem: "c \<in> set (upsertImportedUser c cs)"
  by (auto simp: upsertImportedUser_def list_ex_iff)










subsection \<open>Exceptions of the merge\<close>

text \<open>
  C6, as stated, fails: the \<^verbatim>\<open>catch\<close> block of lines 91 to 105 itself awaits
  \<^verbatim>\<open>UserStorage.saveImportedUser\<close> and \<^verbatim>\<open>Logging.logError\<close>. When the lookup
  of the first imported user rejects and the write of the \<^verbatim>\<open>catch\<close> block rejects
  too, the imported user stays READY in the staging store, the second user of the page is
  never processed, and the pass ends in the outer \<^verbatim>\<open>catch\<close> without a report of the
  counters.
\<close>

theorem merge_exception_handler_fault_counterexample:
  "importUser ''T'' (candidate 1 ''a@x.com'')
      (stateOf [candidate 1 ''a@x.com'', candidate 2 ''b@x.com''] [] []
         [Some ''lookup'', Some ''save''])
     = (Inl (Error ''lookup''),
        stateOf [candidate 1 ''a@x.com'', candidate 2 ''b@x.com''] [] [] [Some ''save''])
   \<and> processImportedUsers ''T'' [candidate 1 ''a@x.com'', candidate 2 ''b@x.com'']
        \<lparr>inError = 0, inSuccess = 0\<rparr>
        (stateOf [candidate 1 ''a@x.com'', candidate 2 ''b@x.com''] [] []
           [Some ''lookup'', Some ''save''])
     = (Inl (Error ''save''),
        stateOf [candidate 1 ''a@x.com'', candidate 2 ''b@x.com''] [] [] [])
   \<and> processTenant 2 ''T''
        (stateOf [candidate 1 ''a@x.com'', candidate 2 ''b@x.com''] [] []
           [None, None, None, Some ''lookup'', Some ''save''])
     = (Inr (),
        (stateOf [candidate 1 ''a@x.com'', candidate 2 ''b@x.com''] [] [] [])
          \<lparr>logs := [LogInfo ''T'' 2, LogActionException ''T'' (Error ''save'')]\<rparr>)"
  by (simp add: processTenant_def createImportUsersLock_def release_def importUsers_def
      getImportedUsersCount_def logTotal_def importLoop.simps importPage_def
      getImportedUsers_def processImportedUser_def importUser_def store_defs
      nextFault_def called_def stateOf_def candidate_def)

lemma processTenant_Inl:
  assumes "fst (processTenant pageSize t s) = Inl e'"
  shows "\<exists>l s0 e s3. createImportUsersLock t s = (Some l, s0)
     \<and> importUsers pageSize t s0 = (Inl e, s3) \<and> nextFault s3 = Some (message e')"
proof -
  obtain lo s0 where acq: "createImportUsersLock t s = (lo, s0)"
    by (cases "createImportUsersLock t s")
  obtain y s3 where body: "importUsers pageSize t s0 = (y, s3)"
    by (cases "importUsers pageSize t s0")
  from assms acq obtain l where l: "lo = Some l"
    by (cases lo) (simp_all add: processTenant_def)
  from assms acq l body obtain e where e: "y = Inl e"
    by (cases y) (simp_all add: processTenant_def)
  from assms acq l body e have "fst (logging (LogActionException t e) s3) = Inl e'"
    by (simp add: processTenant_def split: prod.splits)
  then have "nextFault s3 = Some (message e')"
    by (auto simp: logging_def split: option.splits)
  with acq l body e show ?thesis by simp
qed

text \<open>
  C6, amended. Whenever the merge of an imported user throws, and the two calls of the
  \<^verbatim>\<open>catch\<close> block complete: the merge has deleted nothing from the staging store, the
  imported user is saved there with status ERROR and the message of the exception, the
  error is logged, \<open>inError\<close> grows by one, and the loop goes on with the next user of
  the page. And no exception of a merge ever leaves the task: a task that ends with an
  exception ends with the rejection of the logging call of its outer \<^verbatim>\<open>catch\<close>.
\<close>

theorem merge_exception_isolated:
  assumes "importUser t c s = (Inl e, s1)" and "noFault 2 s1"
  shows "(\<exists>s2. processImportedUser t c r s = (Inr (r\<lparr>inError := inError r + 1\<rparr>), s2)
     \<and> importedUsers s1 = importedUsers s
     \<and> importedUsers s2 = (importedUsers s)(t :=
          upsertImportedUser (c\<lparr>imp_status := ERROR, imp_errorDescription := Some (message e)\<rparr>)
            (importedUsers s t))
     \<and> c\<lparr>imp_status := ERROR, imp_errorDescription := Some (message e)\<rparr>
          \<in> set (importedUsers s2 t)
     \<and> users s2 = users s1
     \<and> logs s2 = logs s1 @
          [LogError t (c\<lparr>imp_status := ERROR, imp_errorDescription := Some (message e)\<rparr>)
             (message e)]
     \<and> processImportedUsers t (c # rest) r s
          = processImportedUsers t rest (r\<lparr>inError := inError r + 1\<rparr>) s2)
   \<and> (fst (processTenant pageSize t sr) = Inl e' \<longrightarrow>
        (\<exists>l s0 x s3. createImportUsersLock t sr = (Some l, s0)
           \<and> importUsers pageSize t s0 = (Inl x, s3) \<and> nextFault s3 = Some (message e')))"
proof
  show "\<exists>s2. processImportedUser t c r s = (Inr (r\<lparr>inError := inError r + 1\<rparr>), s2)
     \<and> importedUsers s1 = importedUsers s
     \<and> importedUsers s2 = (importedUsers s)(t :=
          upsertImportedUser (c\<lparr>imp_status := ERROR, imp_errorDescription := Some (message e)\<rparr>)
            (importedUsers s t))
     \<and> c\<lparr>imp_status := ERROR, imp_errorDescription := Some (message e)\<rparr>
          \<in> set (importedUsers s2 t)
     \<and> users s2 = users s1
     \<and> logs s2 = logs s1 @
          [LogError t (c\<lparr>imp_status := ERROR, imp_errorDescription := Some (message e)\<rparr>)
             (message e)]
     \<and> processImportedUsers t (c # rest) r s
          = processImportedUsers t rest (r\<lparr>inError := inError r + 1\<rparr>) s2"
    using assms importUser_Inl_staging [OF assms(1)]
    by (simp add: eval_nat_numeral noFault_Suc processImportedUser_def
        saveImportedUser_def logging_def Let_def upsertImportedUser_mem)
next
  show "fst (processTenant pageSize t sr) = Inl e' \<longrightarrow>
        (\<exists>l s0 x s3. createImportUsersLock t sr = (Some l, s0)
           \<and> importUsers pageSize t s0 = (Inl x, s3) \<and> nextFault s3 = Some (message e'))"
    using processTenant_Inl [of pageSize t sr e'] by blast
qed

theorem merge_exception_isolated_witness:
  "importUser ''T'' (candidate 1 ''a@x.com'')
      (stateOf [candidate 1 ''a@x.com'', candidate 2 ''b@x.com''] [] [] [Some ''lookup''])
     = (Inl (Error ''lookup''),
        stateOf [candidate 1 ''a@x.com'', candidate 2 ''b@x.com''] [] [] [])
   \<and> noFault 2 (stateOf [candidate 1 ''a@x.com'', candidate 2 ''b@x.com''] [] [] [])
   \<and> fst (processImportedUser ''T'' (candidate 1 ''a@x.com'') \<lparr>inError = 0, inSuccess = 0\<rparr>
        (stateOf [candidate 1 ''a@x.com'', candidate 2 ''b@x.com''] [] [] [Some ''lookup'']))
     = Inr \<lparr>inError = 1, inSuccess = 0\<rparr>
   \<and> importedUsers (snd (processImportedUser ''T'' (candidate 1 ''a@x.com'')
        \<lparr>inError = 0, inSuccess = 0\<rparr>
        (stateOf [candidate 1 ''a@x.com'', candidate 2 ''b@x.com''] [] [] [Some ''lookup'']))) ''T''
     = [(candidate 1 ''a@x.com'')\<lparr>imp_status := ERROR, imp_errorDescription := Some ''lookup''\<rparr>,
        candidate 2 ''b@x.com'']"
proof -
  have h1: "importUser ''T'' (candidate 1 ''a@x.com'')
      (stateOf [candidate 1 ''a@x.com'', candidate 2 ''b@x.com''] [] [] [Some ''lookup''])
     = (Inl (Error ''lookup''),
        stateOf [candidate 1 ''a@x.com'', candidate 2 ''b@x.com''] [] [] [])"
    by (simp add: importUser_def getUserByEmail_def nextFault_def called_def stateOf_def)
  have h2: "noFault 2 (stateOf [candidate 1 ''a@x.com'', candidate 2 ''b@x.com''] [] [] [])"
    by (simp add: noFault_def stateOf_def)
  from merge_exception_isolated [OF h1 h2, where r = "\<lparr>inError = 0, inSuccess = 0\<rparr>"
      and rest = "[]" and pageSize = 1 and e' = "Error ''log''"
      and sr = "stateOf [] [] [] []"] h1 h2
  show ?thesis
    by (auto simp: stateOf_def candidate_def upsertImportedUser_def)
qed

subsection \<open>A create path that fails partway\<close>







subsection \<open>A fault of a page fetch\<close>

lemma pagesDone_importLoop:
  "pagesDone pageSize t n k r s = Some (r', s') \<Longrightarrow>
     importLoop pageSize t n r s = importLoop pageSize t n r' s'"
proof (induction k arbitrary: r s)
  case 0
  then show ?case by simp
next
  case (Suc k)
  from Suc.prems obtain page r1 s1 where
    page: "importPage pageSize t n r s = (Inr (page, r1), s1)" "\<not> isEmptyArray page"
    and rest: "pagesDone pageSize t n k r1 s1 = Some (r', s')"
    by (auto split: prod.splits sum.splits if_splits)
  from page have "importLoop pageSize t n r s = importLoop pageSize t n r1 s1"
    by (subst importLoop.simps) simp
  with Suc.IH [OF rest] show ?case by simp
qed

lemma importLoop_fetch_fault:
  assumes "getImportedUsers t READY pageSize 0 s = (Inl e, s')"
  shows "importLoop pageSize t n r s = (Inl e, s')"
  using assms by (subst importLoop.simps) (simp add: importPage_def)

text \<open>
  C9, as stated, fails: the fault of a page fetch does not reach the caller of the task.
  The outer \<^verbatim>\<open>catch\<close> of lines 126 to 128 hands it to
  \<^verbatim>\<open>Logging.logActionExceptionMessage\<close> and the task returns normally; and when that
  logging call rejects, the task ends with the rejection of the logging call, and the fault
  of the page fetch is neither logged nor propagated.
\<close>

theorem page_fetch_fault_swallowed_counterexample:
  "processTenant 1 ''T'' (stateOf [candidate 1 ''a@x.com''] [] [] [None, None, Some ''page''])
     = (Inr (),
        (stateOf [candidate 1 ''a@x.com''] [] [] [])
          \<lparr>logs := [LogInfo ''T'' 1, LogActionException ''T'' (Error ''page'')]\<rparr>)
   \<and> processTenant 1 ''T''
        (stateOf [candidate 1 ''a@x.com''] [] [] [None, None, Some ''page'', Some ''log''])
     = (Inl (Error ''log''),
        (stateOf [candidate 1 ''a@x.com''] [] [] [])\<lparr>logs := [LogInfo ''T'' 1]\<rparr>)"
  by (simp add: run_defs)

text \<open>
  C9, amended. The task holds the lock \<open>l\<close>, has counted the users and has processed
  \<open>k\<close> pages; the fetch of the next page rejects with \<open>e\<close>. Then the loop and the body
  of the \<^verbatim>\<open>try\<close> end at once with \<open>e\<close>: no further user is processed, both stores
  are as the last page left them, and \<open>l\<close> is still held. The outer \<^verbatim>\<open>catch\<close> hands
  \<open>e\<close> to \<^verbatim>\<open>Logging.logActionExceptionMessage\<close>: when that call completes, \<open>e\<close>
  is the last entry of the log and the task returns normally; when it rejects, the task
  ends with that rejection and the log is as it was. In both cases the lock is released:
  \<open>l\<close> is not held after the task and the locks held are those held before it.
\<close>

theorem page_fetch_fault_aborts:
  assumes acquire: "createImportUsersLock t s = (Some l, s0)"
    and count: "getImportedUsersCount t s0 = (Inr n, s1)"
    and info: "logTotal t n s1 = (Inr (), s2)"
    and pages: "pagesDone pageSize t n k \<lparr>inError = 0, inSuccess = 0\<rparr> s2 = Some (r, s3)"
    and fetch: "getImportedUsers t READY pageSize 0 s3 = (Inl e, s4)"
  shows "importLoop pageSize t n r s3 = (Inl e, s4)
     \<and> importedUsers s4 = importedUsers s3 \<and> users s4 = users s3 \<and> logs s4 = logs s3
     \<and> importUsers pageSize t s0 = (Inl e, s4)
     \<and> l \<in> set (locks s4)
     \<and> processTenant pageSize t s =
          (fst (logging (LogActionException t e) s4),
           release l (snd (logging (LogActionException t e) s4)))
     \<and> importedUsers (snd (processTenant pageSize t s)) = importedUsers s3
     \<and> users (snd (processTenant pageSize t s)) = users s3
     \<and> l \<notin> set (locks (snd (processTenant pageSize t s)))
     \<and> locks (snd (processTenant pageSize t s)) = locks s
     \<and> (nextFault s4 = None \<longrightarrow>
          fst (processTenant pageSize t s) = Inr ()
          \<and> logs (snd (processTenant pageSize t s)) = logs s3 @ [LogActionException t e])
     \<and> (\<forall>m. nextFault s4 = Some m \<longrightarrow>
          fst (processTenant pageSize t s) = Inl (Error m)
          \<and> logs (snd (processTenant pageSize t s)) = logs s3)"
proof -
  from fetch have loop: "importLoop pageSize t n r s3 = (Inl e, s4)"
    by (rule importLoop_fetch_fault)
  from fetch have s4: "s4 = called s3"
    by (auto simp: getImportedUsers_def split: option.splits)
  from pagesDone_importLoop [OF pages] loop
  have "importLoop pageSize t n \<lparr>inError = 0, inSuccess = 0\<rparr> s2 = (Inl e, s4)"
    by simp
  with count info have body: "importUsers pageSize t s0 = (Inl e, s4)"
    by (simp add: importUsers_def)
  from acquire have free: "(t, ''import'') \<notin> set (locks s)" and l: "l = (t, ''import'')"
    and s0: "locks s0 = (t, ''import'') # locks s"
    by (auto simp: createImportUsersLock_def split: if_splits)
  from body have l4: "locks s4 = locks s0" by (rule importUsers_locks)
  with s0 l have held: "l \<in> set (locks s4)" by simp
  from l4 s0 free l have rel: "removeAll l (locks s4) = locks s" by simp
  from acquire body have run: "processTenant pageSize t s =
          (fst (logging (LogActionException t e) s4),
           release l (snd (logging (LogActionException t e) s4)))"
    by (simp add: processTenant_def split: prod.splits)
  have after: "locks (snd (processTenant pageSize t s)) = locks s"
    using run rel by (auto simp: logging_def release_def split: option.splits)
  with free l have gone: "l \<notin> set (locks (snd (processTenant pageSize t s)))" by simp
  have rest: "importedUsers (snd (processTenant pageSize t s)) = importedUsers s3
     \<and> users (snd (processTenant pageSize t s)) = users s3
     \<and> (nextFault s4 = None \<longrightarrow>
          fst (processTenant pageSize t s) = Inr ()
          \<and> logs (snd (processTenant pageSize t s)) = logs s3 @ [LogActionException t e])
     \<and> (\<forall>m. nextFault s4 = Some m \<longrightarrow>
          fst (processTenant pageSize t s) = Inl (Error m)
          \<and> logs (snd (processTenant pageSize t s)) = logs s3)"
    using run by (auto simp: s4 logging_def release_def split: option.splits)
  from loop body held run after gone rest show ?thesis
    by (simp add: s4)
qed

theorem page_fetch_fault_aborts_witness:
  "fst (createImportUsersLock ''T''
      (stateOf [candidate 1 ''a@x.com'', candidate 2 ''b@x.com''] [] []
         [None, None, None, None, None, None, None, None, None, Some ''page'']))
     = Some (''T'', ''import'')
   \<and> fst (processTenant 1 ''T''
      (stateOf [candidate 1 ''a@x.com'', candidate 2 ''b@x.com''] [] []
         [None, None, None, None, None, None, None, None, None, Some ''page''])) = Inr ()
   \<and> importedUsers (snd (processTenant 1 ''T''
      (stateOf [candidate 1 ''a@x.com'', candidate 2 ''b@x.com''] [] []
         [None, None, None, None, None, None, None, None, None, Some ''page'']))) ''T''
     = [candidate 2 ''b@x.com'']
   \<and> logs (snd (processTenant 1 ''T''
      (stateOf [candidate 1 ''a@x.com'', candidate 2 ''b@x.com''] [] []
         [None, None, None, None, None, None, None, None, None, Some ''page''])))
     = [LogInfo ''T'' 2, LogDebug ''T'' 1 2, LogActionException ''T'' (Error ''page'')]
   \<and> locks (snd (processTenant 1 ''T''
      (stateOf [candidate 1 ''a@x.com'', candidate 2 ''b@x.com''] [] []
         [None, None, None, None, None, None, None, None, None, Some ''page''])) ) = []"
proof -
  let ?s = "stateOf [candidate 1 ''a@x.com'', candidate 2 ''b@x.com''] [] []
         [None, None, None, None, None, None, None, None, None, Some ''page'']"
  let ?r = "\<lparr>inError = 0, inSuccess = 0\<rparr>"
  define sa where "sa = snd (createImportUsersLock ''T'' ?s)"
  define sb where "sb = snd (getImportedUsersCount ''T'' sa)"
  define sc where "sc = snd (logTotal ''T'' 2 sb)"
  define sd where "sd = snd (the (pagesDone 1 ''T'' 2 1 ?r sc))"
  define se where "se = snd (getImportedUsers ''T'' READY 1 0 sd)"
  note defs = sa_def sb_def sc_def sd_def se_def
  have h1: "createImportUsersLock ''T'' ?s = (Some (''T'', ''import''), sa)"
    by (simp add: defs run_defs)
  have h2: "getImportedUsersCount ''T'' sa = (Inr 2, sb)"
    by (simp add: defs run_defs)
  have h3: "logTotal ''T'' 2 sb = (Inr (), sc)"
    by (simp add: defs run_defs)
  have h4: "pagesDone 1 ''T'' 2 1 ?r sc = Some (\<lparr>inError = 0, inSuccess = 1\<rparr>, sd)"
    by (simp add: defs run_defs)
  have h5: "getImportedUsers ''T'' READY 1 0 sd = (Inl (Error ''page''), se)"
    by (simp add: defs run_defs)
  have h6: "nextFault se = None"
    by (simp add: defs run_defs)
  have h7: "importedUsers sd ''T'' = [candidate 2 ''b@x.com'']"
    "logs sd = [LogInfo ''T'' 2, LogDebug ''T'' 1 2]"
    by (simp_all add: defs run_defs)
  have h8: "locks ?s = []"
    by (simp add: stateOf_def)
  from page_fetch_fault_aborts [OF h1 h2 h3 h4 h5] h1 h6 h7 h8 show ?thesis
    by auto
qed

subsection \<open>Pagination\<close>

text \<open>
  With distinct identifiers in the staging store, the first READY user is the only record
  that leaves the READY users when it is deleted or saved with status ERROR.
\<close>

lemma ready_Cons_mem:
  assumes "ready cs = c # rest"
  shows "c \<in> set cs \<and> imp_status c = READY"
proof -
  have "c \<in> set (ready cs)" by (simp add: assms)
  then show ?thesis by (simp add: ready_def)
qed

lemma filter_other_ids:
  "imp_id c \<notin> imp_id ` set cs \<Longrightarrow> filter (\<lambda>x. imp_id x \<noteq> imp_id c) cs = cs"
  by (induction cs) auto

lemma ready_delete_first:
  "distinct (map imp_id cs) \<Longrightarrow> ready cs = c # rest \<Longrightarrow>
     ready (filter (\<lambda>x. imp_id x \<noteq> imp_id c) cs) = rest"
proof (induction cs)
  case Nil
  then show ?case by (simp add: ready_def)
next
  case (Cons x xs)
  show ?case
  proof (cases "imp_status x = READY")
    case True
    with Cons.prems have "x = c" "ready xs = rest" "imp_id c \<notin> imp_id ` set xs"
      by (auto simp: ready_def)
    then show ?thesis
      by (simp add: filter_other_ids)
  next
    case False
    with Cons.prems have r: "ready xs = c # rest" by (simp add: ready_def)
    then have "c \<in> set xs" by (auto dest: ready_Cons_mem)
    with Cons.prems have "imp_id x \<noteq> imp_id c" by auto
    with Cons r False show ?thesis by (simp add: ready_def)
  qed
qed

lemma map_other_ids:
  "imp_id c \<notin> imp_id ` set cs \<Longrightarrow> map (\<lambda>x. if imp_id x = imp_id c then c' else x) cs = cs"
  by (induction cs) auto

lemma ready_replace_first:
  "distinct (map imp_id cs) \<Longrightarrow> ready cs = c # rest \<Longrightarrow> imp_status c' = ERROR \<Longrightarrow>
     ready (map (\<lambda>x. if imp_id x = imp_id c then c' else x) cs) = rest"
proof (induction cs)
  case Nil
  then show ?case by (simp add: ready_def)
next
  case (Cons x xs)
  show ?case
  proof (cases "imp_status x = READY")
    case True
    with Cons.prems have "x = c" "ready xs = rest" "imp_id c \<notin> imp_id ` set xs"
      by (auto simp: ready_def)
    with Cons.prems(3) show ?thesis
      by (simp add: map_other_ids) (simp add: ready_def)
  next
    case False
    with Cons.prems have r: "ready xs = c # rest" by (simp add: ready_def)
    then have "c \<in> set xs" by (auto dest: ready_Cons_mem)
    with Cons.prems have "imp_id x \<noteq> imp_id c" by auto
    with Cons r False show ?thesis by (simp add: ready_def)
  qed
qed

lemma ready_upsert_first:
  assumes "distinct (map imp_id cs)" and "ready cs = c # rest"
    and "imp_status c' = ERROR" and "imp_id c' = imp_id c"
  shows "ready (upsertImportedUser c' cs) = rest"
proof -
  from assms(2) have "c \<in> set cs" by (auto dest: ready_Cons_mem)
  with assms(4) have "list_ex (\<lambda>x. imp_id x = imp_id c') cs"
    by (auto simp: list_ex_iff)
  with ready_replace_first [OF assms(1-3)] assms(4) show ?thesis
    by (simp add: upsertImportedUser_def)
qed

lemma distinct_upsert:
  assumes "distinct (map imp_id cs)"
  shows "distinct (map imp_id (upsertImportedUser c cs))"
proof -
  have "map imp_id (map (\<lambda>x. if imp_id x = imp_id c then c else x) cs) = map imp_id cs"
    by (induction cs) auto
  with assms have "distinct (map imp_id (map (\<lambda>x. if imp_id x = imp_id c then c else x) cs))"
    by (simp only:)
  moreover have "\<not> list_ex (\<lambda>x. imp_id x = imp_id c) cs \<Longrightarrow> distinct (map imp_id (cs @ [c]))"
    using assms by (auto simp: list_ex_iff)
  ultimately show ?thesis
    by (simp only: upsertImportedUser_def split: if_splits) blast
qed

lemma processImportedUser_first:
  assumes "processImportedUser t c r s = (Inr r', s')"
    and "distinct (map imp_id (importedUsers s t))"
    and "ready (importedUsers s t) = c # rest"
  shows "ready (importedUsers s' t) = rest \<and> distinct (map imp_id (importedUsers s' t))
     \<and> inSuccess r' + inError r' = inSuccess r + inError r + 1"
  using processImportedUser_staging [OF assms(1)] assms(2,3)
  by (auto simp: ready_delete_first ready_upsert_first distinct_upsert distinct_map_filter)

lemma processImportedUsers_prefix:
  "processImportedUsers t page r s = (Inr r', s') \<Longrightarrow>
     distinct (map imp_id (importedUsers s t)) \<Longrightarrow>
     ready (importedUsers s t) = page @ rest \<Longrightarrow>
     ready (importedUsers s' t) = rest \<and> distinct (map imp_id (importedUsers s' t))
     \<and> inSuccess r' + inError r' = inSuccess r + inError r + length page"
proof (induction page arbitrary: r s)
  case Nil
  then show ?case by simp
next
  case (Cons c cs)
  from Cons.prems(1) obtain r1 s1 where
    1: "processImportedUser t c r s = (Inr r1, s1)" and
    2: "processImportedUsers t cs r1 s1 = (Inr r', s')"
    by (auto split: prod.splits sum.splits)
  from Cons.prems(3) have "ready (importedUsers s t) = c # (cs @ rest)" by simp
  from processImportedUser_first [OF 1 Cons.prems(2) this]
  have "ready (importedUsers s1 t) = cs @ rest" "distinct (map imp_id (importedUsers s1 t))"
    "inSuccess r1 + inError r1 = inSuccess r + inError r + 1"
    by simp_all
  with Cons.IH [OF 2] show ?case by simp
qed

lemma importPage_chunk:
  assumes "importPage pageSize t n r s = (Inr (page, r'), s')"
    and "distinct (map imp_id (importedUsers s t))"
  shows "page = take pageSize (ready (importedUsers s t))
     \<and> ready (importedUsers s' t) = drop pageSize (ready (importedUsers s t))
     \<and> distinct (map imp_id (importedUsers s' t))
     \<and> inSuccess r' + inError r' = inSuccess r + inError r + length page"
proof -
  from assms(1) obtain s1 s2 where
    fetch: "getImportedUsers t READY pageSize 0 s = (Inr page, s1)" and
    proc: "processImportedUsers t page r s1 = (Inr r', s2)" and
    log: "logProgress t n page r' s2 = (Inr (), s')"
    by (auto simp: importPage_def split: prod.splits sum.splits)
  from fetch have p: "page = take pageSize (ready (importedUsers s t))"
    and s1: "importedUsers s1 = importedUsers s"
    by (auto dest!: getImportedUsers_page simp: ready_def)
  from p have "ready (importedUsers s1 t) = page @ drop pageSize (ready (importedUsers s t))"
    by (simp add: s1)
  from processImportedUsers_prefix [OF proc _ this] assms(2) s1
  have "ready (importedUsers s2 t) = drop pageSize (ready (importedUsers s t))"
    "distinct (map imp_id (importedUsers s2 t))"
    "inSuccess r' + inError r' = inSuccess r + inError r + length page"
    by simp_all
  with logProgress_stores [OF log] p show ?thesis by simp
qed

lemma importLoop_complete:
  "0 < pageSize \<Longrightarrow> distinct (map imp_id (importedUsers s t)) \<Longrightarrow>
     importLoop pageSize t n r s = (Inr r', s') \<Longrightarrow>
     ready (importedUsers s' t) = []
     \<and> inSuccess r' + inError r' = inSuccess r + inError r + length (ready (importedUsers s t))"
proof (induction pageSize t n r s rule: importLoop.induct)
  case (1 pageSize t n r s)
  from "1.prems"(3) obtain page r1 s1 where
    page: "importPage pageSize t n r s = (Inr (page, r1), s1)"
    by (subst (asm) importLoop.simps) (auto split: prod.splits sum.splits)
  note chunk = importPage_chunk [OF page "1.prems"(2)]
  show ?case
  proof (cases "isEmptyArray page")
    case True
    with page "1.prems"(3) have "r' = r1" "s' = s1"
      by (subst (asm) importLoop.simps, simp)+
    moreover from True chunk "1.prems"(1) have "ready (importedUsers s t) = []"
      by (auto simp: isEmptyArray_def)
    ultimately show ?thesis using chunk True by (simp add: isEmptyArray_def)
  next
    case False
    with page "1.prems"(3) have "importLoop pageSize t n r1 s1 = (Inr r', s')"
      by (subst (asm) importLoop.simps) simp
    from "1.IH" [OF page [symmetric] refl refl False "1.prems"(1) _ this] chunk
    have "ready (importedUsers s' t) = []"
      "inSuccess r' + inError r' = inSuccess r1 + inError r1
         + length (drop pageSize (ready (importedUsers s t)))"
      by simp_all
    with chunk show ?thesis by auto
  qed
qed

lemma called_no_faults: "faults s = [] \<Longrightarrow> called s = s \<and> nextFault s = None"
  by (simp add: called_def nextFault_def)

lemma importUser_no_faults:
  "faults s = [] \<Longrightarrow> importUser t c s = (x, s') \<Longrightarrow> faults s' = []"
  by (auto simp: importUser_def store_defs Let_def nextFault_def called_def
      split: option.splits if_splits)

lemma processImportedUser_no_faults:
  assumes "faults s = []"
  shows "\<exists>r' s'. processImportedUser t c r s = (Inr r', s') \<and> faults s' = []"
proof -
  obtain x s1 where m: "importUser t c s = (x, s1)" by (cases "importUser t c s")
  with assms have "faults s1 = []" by (rule importUser_no_faults)
  with m show ?thesis
    by (cases x)
       (simp_all add: processImportedUser_def saveImportedUser_def logging_def Let_def
          nextFault_def called_def)
qed

lemma processImportedUsers_no_faults:
  "faults s = [] \<Longrightarrow> \<exists>r' s'. processImportedUsers t cs r s = (Inr r', s') \<and> faults s' = []"
proof (induction cs arbitrary: r s)
  case Nil
  then show ?case by simp
next
  case (Cons c cs)
  from processImportedUser_no_faults [OF Cons.prems, of t c r] obtain r1 s1 where
    "processImportedUser t c r s = (Inr r1, s1)" "faults s1 = []" by blast
  with Cons.IH [of s1 r1] show ?case by simp
qed

lemma importPage_no_faults:
  assumes "faults s = []"
  shows "\<exists>page r' s'. importPage pageSize t n r s = (Inr (page, r'), s') \<and> faults s' = []"
proof -
  from assms obtain page where
    fetch: "getImportedUsers t READY pageSize 0 s = (Inr page, s)"
    by (simp add: getImportedUsers_def called_no_faults)
  from processImportedUsers_no_faults [OF assms, of t page r] obtain r1 s1 where
    proc: "processImportedUsers t page r s = (Inr r1, s1)" "faults s1 = []" by blast
  then have "\<exists>s2. logProgress t n page r1 s1 = (Inr (), s2) \<and> faults s2 = []"
    by (simp add: logProgress_def logging_def nextFault_def called_def)
  then obtain s2 where "logProgress t n page r1 s1 = (Inr (), s2)" "faults s2 = []"
    by blast
  with fetch proc show ?thesis
    by (simp add: importPage_def)
qed

lemma importLoop_no_faults:
  "faults s = [] \<Longrightarrow> \<exists>r' s'. importLoop pageSize t n r s = (Inr r', s') \<and> faults s' = []"
proof (induction pageSize t n r s rule: importLoop.induct)
  case (1 pageSize t n r s)
  from importPage_no_faults [OF "1.prems", of pageSize t n r] obtain page r1 s1 where
    page: "importPage pageSize t n r s = (Inr (page, r1), s1)" and f: "faults s1 = []"
    by blast
  show ?case
  proof (cases "isEmptyArray page")
    case True
    with page f show ?thesis
      by (subst importLoop.simps) simp
  next
    case False
    from "1.IH" [OF page [symmetric] refl refl False f] page False show ?thesis
      by (subst importLoop.simps) simp
  qed
qed

lemma importUsers_no_faults:
  assumes "faults s = []" and "0 < pageSize" and "distinct (map imp_id (importedUsers s t))"
  shows "\<exists>res s'. importUsers pageSize t s = (Inr (), s')
     \<and> last (logs s') = LogActionsResponse t res
     \<and> inSuccess res + inError res = length (ready (importedUsers s t))
     \<and> ready (importedUsers s' t) = []"
proof -
  let ?n = "length (ready (importedUsers s t))"
  from assms(1) have count: "getImportedUsersCount t s = (Inr ?n, s)"
    by (simp add: getImportedUsersCount_def called_no_faults ready_def)
  from assms(1) obtain s2 where info: "logTotal t ?n s = (Inr (), s2)"
    and s2: "faults s2 = []" "importedUsers s2 = importedUsers s"
    by (cases "0 < ?n") (simp_all add: logTotal_def logging_def nextFault_def called_def)
  from importLoop_no_faults [OF s2(1), of pageSize t ?n "\<lparr>inError = 0, inSuccess = 0\<rparr>"]
  obtain res s3 where
    loop: "importLoop pageSize t ?n \<lparr>inError = 0, inSuccess = 0\<rparr> s2 = (Inr res, s3)"
    and s3: "faults s3 = []"
    by blast
  from importLoop_complete [OF assms(2) _ loop] assms(3) s2(2)
  have drained: "ready (importedUsers s3 t) = []" "inSuccess res + inError res = ?n"
    by simp_all
  from s3 have "logging (LogActionsResponse t res) s3
      = (Inr (), s3\<lparr>logs := logs s3 @ [LogActionsResponse t res]\<rparr>)"
    by (simp add: logging_def nextFault_def called_def)
  with count info loop have "importUsers pageSize t s
      = (Inr (), s3\<lparr>logs := logs s3 @ [LogActionsResponse t res]\<rparr>)"
    by (simp add: importUsers_def)
  with drained show ?thesis by simp
qed

text \<open>
  C7. The page size is positive and the identifiers of the staging store are distinct.
  Every page that is fetched and processed is the next \<open>pageSize\<close> READY users, in
  their order, and once it is processed exactly these have left the READY users: no user
  is fetched twice, none is skipped. So a loop that ends without exception has left no
  READY user and has counted each of them once, in \<open>inSuccess\<close> or in \<open>inError\<close>.
  When no fault is injected and the lock is free, the task returns normally, its last log
  entry is the report of the counters, they add up to the number of READY users it
  started with, and no READY user is left.
\<close>

theorem pagination_complete:
  assumes "0 < pageSize" and "distinct (map imp_id (importedUsers s t))"
  shows "(\<forall>page r1 s1. importPage pageSize t n r s = (Inr (page, r1), s1) \<longrightarrow>
            page = take pageSize (ready (importedUsers s t))
          \<and> ready (importedUsers s1 t) = drop pageSize (ready (importedUsers s t)))
     \<and> (\<forall>r' s'. importLoop pageSize t n r s = (Inr r', s') \<longrightarrow>
            ready (importedUsers s' t) = []
          \<and> inSuccess r' + inError r'
              = inSuccess r + inError r + length (ready (importedUsers s t)))
     \<and> (faults s = [] \<and> (t, ''import'') \<notin> set (locks s) \<longrightarrow>
          (\<exists>res. fst (processTenant pageSize t s) = Inr ()
             \<and> last (logs (snd (processTenant pageSize t s))) = LogActionsResponse t res
             \<and> inSuccess res + inError res = length (ready (importedUsers s t))
             \<and> ready (importedUsers (snd (processTenant pageSize t s)) t) = []))"
proof (intro conjI allI impI)
  fix page r1 s1
  assume "importPage pageSize t n r s = (Inr (page, r1), s1)"
  from importPage_chunk [OF this assms(2)]
  show "page = take pageSize (ready (importedUsers s t))"
    and "ready (importedUsers s1 t) = drop pageSize (ready (importedUsers s t))"
    by simp_all
next
  fix r' s'
  assume "importLoop pageSize t n r s = (Inr r', s')"
  from importLoop_complete [OF assms this]
  show "ready (importedUsers s' t) = []"
    and "inSuccess r' + inError r' = inSuccess r + inError r + length (ready (importedUsers s t))"
    by simp_all
next
  assume a: "faults s = [] \<and> (t, ''import'') \<notin> set (locks s)"
  let ?s0 = "s\<lparr>locks := (t, ''import'') # locks s\<rparr>"
  from a have acq: "createImportUsersLock t s = (Some (t, ''import''), ?s0)"
    by (simp add: createImportUsersLock_def)
  from a assms have "faults ?s0 = []" "distinct (map imp_id (importedUsers ?s0 t))"
    by simp_all
  from importUsers_no_faults [OF this(1) assms(1) this(2)] obtain res s' where
    "importUsers pageSize t ?s0 = (Inr (), s')"
    "last (logs s') = LogActionsResponse t res"
    "inSuccess res + inError res = length (ready (importedUsers s t))"
    "ready (importedUsers s' t) = []"
    by auto
  with acq show "\<exists>res. fst (processTenant pageSize t s) = Inr ()
             \<and> last (logs (snd (processTenant pageSize t s))) = LogActionsResponse t res
             \<and> inSuccess res + inError res = length (ready (importedUsers s t))
             \<and> ready (importedUsers (snd (processTenant pageSize t s)) t) = []"
    by (auto simp: processTenant_def release_def)
qed

theorem pagination_complete_witness:
  "(0::nat) < 2
   \<and> distinct (map imp_id (importedUsers
        (stateOf [candidate 1 ''a@x.com'', candidate 2 ''b@x.com'', candidate 3 ''c@x.com'']
           [] [] []) ''T''))
   \<and> length (ready (importedUsers
        (stateOf [candidate 1 ''a@x.com'', candidate 2 ''b@x.com'', candidate 3 ''c@x.com'']
           [] [] []) ''T'')) = 3
   \<and> (\<exists>res. fst (processTenant 2 ''T''
          (stateOf [candidate 1 ''a@x.com'', candidate 2 ''b@x.com'', candidate 3 ''c@x.com'']
             [] [] [])) = Inr ()
        \<and> last (logs (snd (processTenant 2 ''T''
          (stateOf [candidate 1 ''a@x.com'', candidate 2 ''b@x.com'', candidate 3 ''c@x.com'']
             [] [] [])))) = LogActionsResponse ''T'' res
        \<and> inSuccess res + inError res = 3
        \<and> ready (importedUsers (snd (processTenant 2 ''T''
          (stateOf [candidate 1 ''a@x.com'', candidate 2 ''b@x.com'', candidate 3 ''c@x.com'']
             [] [] []))) ''T'') = [])"
proof -
  let ?s = "stateOf [candidate 1 ''a@x.com'', candidate 2 ''b@x.com'', candidate 3 ''c@x.com'']
           [] [] []"
  have h1: "(0::nat) < 2" by simp
  have h2: "distinct (map imp_id (importedUsers ?s ''T''))"
    by (simp add: stateOf_def candidate_def)
  have h3: "faults ?s = [] \<and> (''T'', ''import'') \<notin> set (locks ?s)"
    by (simp add: stateOf_def)
  have h4: "length (ready (importedUsers ?s ''T'')) = 3"
    by (simp add: stateOf_def candidate_def ready_def)
  from pagination_complete [OF h1 h2, of 0 "\<lparr>inError = 0, inSuccess = 0\<rparr>"] h3
  have "\<exists>res. fst (processTenant 2 ''T'' ?s) = Inr ()
        \<and> last (logs (snd (processTenant 2 ''T'' ?s))) = LogActionsResponse ''T'' res
        \<and> inSuccess res + inError res = length (ready (importedUsers ?s ''T''))
        \<and> ready (importedUsers (snd (processTenant 2 ''T'' ?s)) ''T'') = []"
    by blast
  with h1 h2 h4 show ?thesis by simp
qed

subsection \<open>A second run\<close>

text \<open>Once no imported user is READY, a pass fetches one empty page and writes nothing.\<close>

lemma importPage_drained:
  assumes "ready (importedUsers s t) = []" and "importPage pageSize t n r s = (x, s')"
  shows "importedUsers s' = importedUsers s \<and> users s' = users s
     \<and> (\<forall>page r'. x = Inr (page, r') \<longrightarrow> page = [] \<and> r' = r \<and> logs s' = logs s)"
proof (cases "nextFault s")
  case None
  with assms(1) have "getImportedUsers t READY pageSize 0 s = (Inr [], called s)"
    unfolding ready_def by (simp add: getImportedUsers_def)
  with assms(2) have "x = Inr ([], r)" "s' = called s"
    by (simp_all add: importPage_def logProgress_def)
  then show ?thesis by simp
next
  case (Some m)
  then have "getImportedUsers t READY pageSize 0 s = (Inl (Error m), called s)"
    by (simp add: getImportedUsers_def)
  with assms(2) have "x = Inl (Error m)" "s' = called s"
    by (simp_all add: importPage_def)
  then show ?thesis by simp
qed

lemma importLoop_drained:
  assumes "ready (importedUsers s t) = []" and "importLoop pageSize t n r s = (x, s')"
  shows "importedUsers s' = importedUsers s \<and> users s' = users s
     \<and> (\<forall>r'. x = Inr r' \<longrightarrow> r' = r \<and> logs s' = logs s)"
proof -
  obtain y s1 where page: "importPage pageSize t n r s = (y, s1)"
    by (cases "importPage pageSize t n r s")
  note d = importPage_drained [OF assms(1) page]
  show ?thesis
  proof (cases y)
    case (Inl e)
    with page have "importLoop pageSize t n r s = (Inl e, s1)"
      by (subst importLoop.simps) simp
    with assms(2) have "x = Inl e" "s' = s1" by simp_all
    with d show ?thesis by simp
  next
    case (Inr pr)
    obtain pg r1 where pr: "pr = (pg, r1)" by (cases pr)
    with Inr d have e: "pg = []" "r1 = r" "logs s1 = logs s" by simp_all
    from page Inr pr e have "importLoop pageSize t n r s = (Inr r, s1)"
      by (subst importLoop.simps) (simp add: isEmptyArray_def)
    with assms(2) have "x = Inr r" "s' = s1" by simp_all
    with d e show ?thesis by simp
  qed
qed

lemma importLoop_Inr_drained:
  "0 < pageSize \<Longrightarrow> importLoop pageSize t n r s = (Inr r', s') \<Longrightarrow>
     ready (importedUsers s' t) = []"
proof (induction pageSize t n r s rule: importLoop.induct)
  case (1 pageSize t n r s)
  from "1.prems"(2) obtain page r1 s1 where
    page: "importPage pageSize t n r s = (Inr (page, r1), s1)"
    by (subst (asm) importLoop.simps) (auto split: prod.splits sum.splits)
  show ?case
  proof (cases "isEmptyArray page")
    case True
    with page "1.prems"(2) have s': "s' = s1"
      by (subst (asm) importLoop.simps) simp
    from page obtain sa sb where
      fetch: "getImportedUsers t READY pageSize 0 s = (Inr page, sa)" and
      proc: "processImportedUsers t page r sa = (Inr r1, sb)" and
      log: "logProgress t n page r1 sb = (Inr (), s1)"
      by (auto simp: importPage_def split: prod.splits sum.splits)
    from fetch True "1.prems"(1) have "ready (importedUsers s t) = []"
      and "importedUsers sa = importedUsers s"
      by (auto dest!: getImportedUsers_page simp: ready_def isEmptyArray_def)
    moreover from proc True have "sb = sa" by (simp add: isEmptyArray_def)
    ultimately show ?thesis
      using logProgress_stores [OF log] s' by simp
  next
    case False
    with page "1.prems"(2) have "importLoop pageSize t n r1 s1 = (Inr r', s')"
      by (subst (asm) importLoop.simps) simp
    from "1.IH" [OF page [symmetric] refl refl False "1.prems"(1) this] show ?thesis .
  qed
qed

lemma importUsers_Inr_drained:
  assumes "0 < pageSize" and "importUsers pageSize t s = (Inr u, s')"
  shows "ready (importedUsers s' t) = []"
proof -
  from assms(2) obtain n s2 res s3 where
    loop: "importLoop pageSize t n \<lparr>inError = 0, inSuccess = 0\<rparr> s2 = (Inr res, s3)"
    and rep: "logging (LogActionsResponse t res) s3 = (Inr u, s')"
    by (auto simp: importUsers_def split: prod.splits sum.splits)
  from rep have "importedUsers s' = importedUsers s3"
    by (auto simp: logging_def split: option.splits)
  with importLoop_Inr_drained [OF assms(1) loop] show ?thesis by simp
qed

lemma importUsers_drained:
  assumes "ready (importedUsers s t) = []" and "importUsers pageSize t s = (x, s')"
  shows "importedUsers s' = importedUsers s \<and> users s' = users s"
proof -
  obtain c s1 where count: "getImportedUsersCount t s = (c, s1)"
    by (cases "getImportedUsersCount t s")
  then have s1: "importedUsers s1 = importedUsers s" "users s1 = users s"
    by (auto simp: getImportedUsersCount_def split: option.splits)
  show ?thesis
  proof (cases c)
    case (Inl e)
    with count assms(2) s1 show ?thesis by (simp add: importUsers_def)
  next
    case (Inr n)
    obtain i s2 where info: "logTotal t n s1 = (i, s2)"
      by (cases "logTotal t n s1")
    then have s2: "importedUsers s2 = importedUsers s" "users s2 = users s"
      using s1 by (auto simp: logTotal_def logging_def split: option.splits if_splits)
    show ?thesis
    proof (cases i)
      case (Inl e)
      with count \<open>c = Inr n\<close> info assms(2) s2 show ?thesis by (simp add: importUsers_def)
    next
      case (Inr u)
      obtain y s3 where loop:
        "importLoop pageSize t n \<lparr>inError = 0, inSuccess = 0\<rparr> s2 = (y, s3)"
        by (cases "importLoop pageSize t n \<lparr>inError = 0, inSuccess = 0\<rparr> s2")
      from assms(1) s2 have "ready (importedUsers s2 t) = []" by simp
      from importLoop_drained [OF this loop] s2
      have s3: "importedUsers s3 = importedUsers s" "users s3 = users s" by simp_all
      show ?thesis
      proof (cases y)
        case (Inl e)
        with count \<open>c = Inr n\<close> info \<open>i = Inr u\<close> loop assms(2) s3 show ?thesis
          by (simp add: importUsers_def)
      next
        case (Inr res)
        with count \<open>c = Inr n\<close> info \<open>i = Inr u\<close> loop assms(2) s3 show ?thesis
          by (auto simp: importUsers_def logging_def split: option.splits)
      qed
    qed
  qed
qed

lemma importUsers_drained_report:
  assumes "ready (importedUsers s t) = []" and "noFault 3 s"
  shows "importUsers pageSize t s =
     (Inr (), (called (called (called s)))\<lparr>logs := logs s @
        [LogActionsResponse t \<lparr>inError = 0, inSuccess = 0\<rparr>]\<rparr>)"
proof -
  from assms(2) have nf: "nextFault s = None" "nextFault (called s) = None"
    "nextFault (called (called s)) = None"
    by (simp_all add: eval_nat_numeral noFault_Suc)
  from assms(1) nf have count: "getImportedUsersCount t s = (Inr 0, called s)"
    by (simp add: getImportedUsersCount_def ready_def)
  have info: "logTotal t 0 (called s) = (Inr (), called s)"
    by (simp add: logTotal_def)
  from assms(1) nf have page: "importPage pageSize t 0 \<lparr>inError = 0, inSuccess = 0\<rparr> (called s)
      = (Inr ([], \<lparr>inError = 0, inSuccess = 0\<rparr>), called (called s))"
    by (simp add: importPage_def getImportedUsers_def logProgress_def ready_def)
  then have loop: "importLoop pageSize t 0 \<lparr>inError = 0, inSuccess = 0\<rparr> (called s)
      = (Inr \<lparr>inError = 0, inSuccess = 0\<rparr>, called (called s))"
    by (subst importLoop.simps) (simp add: isEmptyArray_def)
  from nf have "logging (LogActionsResponse t \<lparr>inError = 0, inSuccess = 0\<rparr>) (called (called s))
      = (Inr (), (called (called (called s)))\<lparr>logs := logs s @
        [LogActionsResponse t \<lparr>inError = 0, inSuccess = 0\<rparr>]\<rparr>)"
    by (simp add: logging_def)
  with count info loop show ?thesis
    by (simp add: importUsers_def)
qed

text \<open>
  C8. A first run takes the lock and completes its pass (no exception reaches the outer
  \<^verbatim>\<open>catch\<close>); the page size is positive. Then it has left no READY imported user: the
  users it marked ERROR are not fetched again. A second run on the state it left, whatever
  faults are injected, changes neither the staging store nor the canonical store; and
  when its three calls complete (count, page fetch, report), it returns normally and adds
  one entry to the log, the report of \<open>inError = 0\<close> and \<open>inSuccess = 0\<close>.
\<close>

theorem second_run_idle:
  assumes "0 < pageSize"
    and "createImportUsersLock t s = (Some l, s0)"
    and "importUsers pageSize t s0 = (Inr (), s1)"
  shows "processTenant pageSize t s = (Inr (), release l s1)
     \<and> ready (importedUsers s1 t) = []
     \<and> importedUsers (snd (processTenant pageSize t (release l s1))) = importedUsers s1
     \<and> users (snd (processTenant pageSize t (release l s1))) = users s1
     \<and> (noFault 3 s1 \<longrightarrow>
          fst (processTenant pageSize t (release l s1)) = Inr ()
          \<and> logs (snd (processTenant pageSize t (release l s1)))
              = logs s1 @ [LogActionsResponse t \<lparr>inError = 0, inSuccess = 0\<rparr>])"
proof -
  from assms(2) have l: "l = (t, ''import'')" and free: "(t, ''import'') \<notin> set (locks s)"
    and s0: "locks s0 = (t, ''import'') # locks s"
    by (auto simp: createImportUsersLock_def split: if_splits)
  from assms(2,3) have run1: "processTenant pageSize t s = (Inr (), release l s1)"
    by (simp add: processTenant_def)
  from importUsers_Inr_drained [OF assms(1,3)] have drained: "ready (importedUsers s1 t) = []" .
  let ?s2 = "(release l s1)\<lparr>locks := (t, ''import'') # locks (release l s1)\<rparr>"
  from importUsers_locks [OF assms(3)] s0 free l have "(t, ''import'') \<notin> set (locks (release l s1))"
    by (simp add: release_def)
  then have acq: "createImportUsersLock t (release l s1) = (Some l, ?s2)"
    by (simp add: createImportUsersLock_def l)
  have d2: "ready (importedUsers ?s2 t) = []"
    using drained by (simp add: release_def)
  obtain x s3 where body: "importUsers pageSize t ?s2 = (x, s3)"
    by (cases "importUsers pageSize t ?s2")
  from importUsers_drained [OF d2 body]
  have st: "importedUsers s3 = importedUsers s1" "users s3 = users s1"
    by (simp_all add: release_def)
  have stores: "importedUsers (snd (processTenant pageSize t (release l s1))) = importedUsers s1
     \<and> users (snd (processTenant pageSize t (release l s1))) = users s1"
    using acq body st
    by (cases x) (auto simp: processTenant_def release_def logging_def split: option.splits)
  have report: "fst (processTenant pageSize t (release l s1)) = Inr ()
          \<and> logs (snd (processTenant pageSize t (release l s1)))
              = logs s1 @ [LogActionsResponse t \<lparr>inError = 0, inSuccess = 0\<rparr>]"
    if nf: "noFault 3 s1"
  proof -
    from nf have "noFault 3 ?s2" by (simp add: noFault_def release_def)
    from importUsers_drained_report [OF d2 this, of pageSize] acq show ?thesis
      by (simp add: processTenant_def release_def)
  qed
  from run1 drained stores report show ?thesis by blast
qed

theorem second_run_idle_witness:
  "fst (processTenant 2 ''T''
      (stateOf [candidate 1 ''a@x.com''] [member 4 ''a@x.com'' ACTIVE] [] [])) = Inr ()
   \<and> importedUsers (snd (processTenant 2 ''T''
      (stateOf [candidate 1 ''a@x.com''] [member 4 ''a@x.com'' ACTIVE] [] []))) ''T''
     = [(candidate 1 ''a@x.com'')\<lparr>imp_status := ERROR,
          imp_errorDescription := Some ''User account is no longer pending''\<rparr>]
   \<and> fst (processTenant 2 ''T'' (snd (processTenant 2 ''T''
      (stateOf [candidate 1 ''a@x.com''] [member 4 ''a@x.com'' ACTIVE] [] [])))) = Inr ()
   \<and> importedUsers (snd (processTenant 2 ''T'' (snd (processTenant 2 ''T''
      (stateOf [candidate 1 ''a@x.com''] [member 4 ''a@x.com'' ACTIVE] [] []))))) ''T''
     = [(candidate 1 ''a@x.com'')\<lparr>imp_status := ERROR,
          imp_errorDescription := Some ''User account is no longer pending''\<rparr>]
   \<and> logs (snd (processTenant 2 ''T'' (snd (processTenant 2 ''T''
      (stateOf [candidate 1 ''a@x.com''] [member 4 ''a@x.com'' ACTIVE] [] [])))))
     = [LogInfo ''T'' 1,
        LogError ''T'' ((candidate 1 ''a@x.com'')\<lparr>imp_status := ERROR,
          imp_errorDescription := Some ''User account is no longer pending''\<rparr>)
          ''User account is no longer pending'',
        LogDebug ''T'' 1 1,
        LogActionsResponse ''T'' \<lparr>inError = 1, inSuccess = 0\<rparr>,
        LogActionsResponse ''T'' \<lparr>inError = 0, inSuccess = 0\<rparr>]"
proof -
  let ?s = "stateOf [candidate 1 ''a@x.com''] [member 4 ''a@x.com'' ACTIVE] [] []"
  define sa where "sa = snd (createImportUsersLock ''T'' ?s)"
  define sb where "sb = snd (importUsers 2 ''T'' sa)"
  note defs = sa_def sb_def
  have h1: "(0::nat) < 2" by simp
  have h2: "createImportUsersLock ''T'' ?s = (Some (''T'', ''import''), sa)"
    by (simp add: defs run_defs)
  have h3: "importUsers 2 ''T'' sa = (Inr (), sb)"
    by (simp add: defs run_defs member_def)
  have h4: "noFault 3 sb"
    by (simp add: defs run_defs member_def noFault_def)
  have h5: "importedUsers sb ''T''
     = [(candidate 1 ''a@x.com'')\<lparr>imp_status := ERROR,
          imp_errorDescription := Some ''User account is no longer pending''\<rparr>]"
    "logs sb = [LogInfo ''T'' 1,
        LogError ''T'' ((candidate 1 ''a@x.com'')\<lparr>imp_status := ERROR,
          imp_errorDescription := Some ''User account is no longer pending''\<rparr>)
          ''User account is no longer pending'',
        LogDebug ''T'' 1 1,
        LogActionsResponse ''T'' \<lparr>inError = 1, inSuccess = 0\<rparr>]"
    by (simp_all add: defs run_defs member_def)
  from second_run_idle [OF h1 h2 h3] h4 h5 show ?thesis
    by (auto simp: release_def)
qed

end
